theory Spec2Isabelle
  imports Complex_Main "HOL-Library.Log_Nat"
begin

section \<open>Worker management: constants\<close>

text \<open>
  The module-level constants of \<^verbatim>\<open>src/core/worker_management.py\<close>. Python's
  integers are unbounded, so they are \<^typ>\<open>int\<close>; the two load thresholds are
  floats that are exact in binary and are read as reals.
\<close>

definition MIN_CPU_UTILIZATION :: real where
  "MIN_CPU_UTILIZATION = 60"

definition MAX_CPU_UTILIZATION :: real where
  "MAX_CPU_UTILIZATION = 80"

definition MAX_BATCH_SIZE :: int where
  "MAX_BATCH_SIZE = 50"

definition MIN_BATCH_SIZE :: int where
  "MIN_BATCH_SIZE = 20"

definition WORKER_STEP_SIZE :: int where
  "WORKER_STEP_SIZE = 10"

definition WORKER_EMERGENCY_REDUCTION :: int where
  "WORKER_EMERGENCY_REDUCTION = 20"

definition BATCH_STEP_SIZE :: int where
  "BATCH_STEP_SIZE = 10"

definition MAX_LOAD_FACTOR :: real where
  "MAX_LOAD_FACTOR = 1.5"

definition CRITICAL_LOAD_FACTOR :: real where
  "CRITICAL_LOAD_FACTOR = 2.0"

definition WORKER_TIMEOUT_SECONDS :: int where
  "WORKER_TIMEOUT_SECONDS = 180"

definition MAX_CONSECUTIVE_ERRORS :: int where
  "MAX_CONSECUTIVE_ERRORS = 50"

lemmas wm_constants =
  MIN_CPU_UTILIZATION_def MAX_CPU_UTILIZATION_def MAX_BATCH_SIZE_def MIN_BATCH_SIZE_def
  WORKER_STEP_SIZE_def WORKER_EMERGENCY_REDUCTION_def BATCH_STEP_SIZE_def
  MAX_LOAD_FACTOR_def CRITICAL_LOAD_FACTOR_def WORKER_TIMEOUT_SECONDS_def
  MAX_CONSECUTIVE_ERRORS_def

section \<open>Python floats\<close>

text \<open>
  A Python float is an IEEE 754 double: 53 significant bits, every operation rounded
  to the nearest double, ties to even. The sizing rules of
  \<^verbatim>\<open>calculate_optimal_workers\<close> multiply a count by a float and truncate, so there
  the rounding is modelled. A float is the dyadic number \<open>m / 2^k\<close>, and
  \<open>round53\<close> rounds an integer to 53 significant bits. The exponent is not bounded:
  the \<^verbatim>\<open>OverflowError\<close> of a conversion arises only from \<open>2^1024\<close> on, beyond
  any CPU count or memory total that psutil reports, and the products of the sizing
  rules stay clear of the subnormal range.
\<close>

datatype pyfloat = Dyadic int nat

fun float_value :: "pyfloat \<Rightarrow> real" where
  "float_value (Dyadic m k) = real_of_int m / 2 ^ k"

definition round_half_even :: "int \<Rightarrow> int \<Rightarrow> int" where
  "round_half_even n d =
     (let q = n div d; r = n mod d
      in if 2 * r < d \<or> (2 * r = d \<and> even q) then q else q + 1)"

definition round_magnitude :: "int \<Rightarrow> int" where
  "round_magnitude n =
     (if bitlen n \<le> 53 then n
      else round_half_even n (2 ^ nat (bitlen n - 53)) * 2 ^ nat (bitlen n - 53))"

definition round53 :: "int \<Rightarrow> int" where
  "round53 n = (if n < 0 then - round_magnitude (- n) else round_magnitude n)"

text \<open>
  The conversion of an integer in \<^verbatim>\<open>n * x\<close>, the product of two floats, the true
  division of an integer by \<open>2^30\<close> (the \<^verbatim>\<open>total / (1024 * 1024 * 1024)\<close> of the
  source) and \<^verbatim>\<open>int(x)\<close>, which truncates towards zero.
\<close>

definition float_of_int :: "int \<Rightarrow> pyfloat" where
  "float_of_int n = Dyadic (round53 n) 0"

fun float_mul :: "pyfloat \<Rightarrow> pyfloat \<Rightarrow> pyfloat" where
  "float_mul (Dyadic a j) (Dyadic b k) = Dyadic (round53 (a * b)) (j + k)"

definition int_over_gib :: "int \<Rightarrow> pyfloat" where
  "int_over_gib n = Dyadic (round53 n) 30"

fun py_int :: "pyfloat \<Rightarrow> int" where
  "py_int (Dyadic m k) = (if 0 \<le> m then m div 2 ^ k else - ((- m) div 2 ^ k))"

text \<open>
  The float literals of the sizing rules: the doubles nearest to the decimals, as
  \<^verbatim>\<open>float.as_integer_ratio\<close> gives them.
\<close>

definition float_0_5 :: pyfloat where
  "float_0_5 = Dyadic 1 1"

definition float_0_75 :: pyfloat where
  "float_0_75 = Dyadic 3 2"

definition float_0_6 :: pyfloat where
  "float_0_6 = Dyadic 5404319552844595 53"

definition float_0_7 :: pyfloat where
  "float_0_7 = Dyadic 3152519739159347 52"

definition float_0_8 :: pyfloat where
  "float_0_8 = Dyadic 3602879701896397 52"

definition float_0_9 :: pyfloat where
  "float_0_9 = Dyadic 8106479329266893 53"

section \<open>System samples\<close>

text \<open>
  \<^verbatim>\<open>get_system_utilization\<close> returns a dictionary; the three entries that
  \<^verbatim>\<open>calculate_optimal_workers\<close> and the scaling step read are the fields of
  \<open>utilization\<close>. The readings are Python floats; they are modelled as reals, so a
  comparison with a threshold is the exact one.
\<close>

record utilization =
  cpu_percent :: real
  memory_percent :: real
  load_factor :: real

text \<open>
  What \<^verbatim>\<open>calculate_optimal_workers\<close> reads from psutil at the head of its
  \<^verbatim>\<open>try\<close> block: the logical CPU count (psutil returns \<^verbatim>\<open>None\<close> when it
  cannot tell) and the total memory in bytes. A probe that raises is the value
  \<open>None\<close> of type \<open>sysinfo option\<close>.
\<close>

record sysinfo =
  cpu_count :: "int option"
  memory_total :: nat

definition memory_gb :: "sysinfo \<Rightarrow> pyfloat" where
  "memory_gb s = int_over_gib (int (memory_total s))"

section \<open>calculate\_optimal\_workers\<close>

text \<open>
  The body of the \<^verbatim>\<open>try\<close> block once both psutil reads have returned. With a
  current worker count and a utilization reading it adjusts; otherwise it sizes the
  pool from the machine. Comparing a CPU count of \<^verbatim>\<open>None\<close> with 96 raises
  \<^verbatim>\<open>TypeError\<close>, which the \<^verbatim>\<open>except\<close> clause turns into 16.
\<close>

definition adjust_workers :: "int \<Rightarrow> utilization \<Rightarrow> int" where
  "adjust_workers current_workers u =
    (let current_cpu = cpu_percent u;
         current_memory = memory_percent u;
         current_load_factor = load_factor u
     in if current_load_factor > CRITICAL_LOAD_FACTOR then
          (let reduction = min WORKER_EMERGENCY_REDUCTION (current_workers div 3)
           in max 8 (current_workers - reduction))
        else if current_load_factor > MAX_LOAD_FACTOR then
          (let reduction = min (WORKER_STEP_SIZE * 2) (current_workers div 5)
           in max 8 (current_workers - reduction))
        else if current_cpu < MIN_CPU_UTILIZATION \<and> current_memory < 80
                \<and> current_load_factor < 0.8 then
          current_workers + WORKER_STEP_SIZE
        else if current_cpu > MAX_CPU_UTILIZATION \<or> current_memory > 90 then
          max 8 (current_workers - WORKER_STEP_SIZE)
        else current_workers)"

text \<open>
  The four sizing rules. The division of the memory product by \<^verbatim>\<open>1.0\<close> is exact
  and is left out.
\<close>

definition size_workers :: "int \<Rightarrow> pyfloat \<Rightarrow> int" where
  "size_workers c m =
    (if c \<ge> 96 then
       (let base_workers = py_int (float_mul (float_of_int c) float_0_5);
            max_by_memory = py_int (float_mul m float_0_7)
        in min (min base_workers max_by_memory) 64)
     else if c \<ge> 32 then
       (let base_workers = min 24 (py_int (float_mul (float_of_int c) float_0_75));
            max_by_memory = py_int (float_mul m float_0_6)
        in min base_workers max_by_memory)
     else if c \<ge> 8 then
       (let base_workers = max 4 (py_int (float_mul (float_of_int c) float_0_8));
            max_by_memory = py_int (float_mul m float_0_6)
        in min base_workers max_by_memory)
     else
       (let base_workers = max 2 (py_int (float_mul (float_of_int c) float_0_9));
            max_by_memory = py_int (float_mul m float_0_6)
        in min base_workers max_by_memory))"

definition calculate_optimal_workers ::
  "int option \<Rightarrow> utilization option \<Rightarrow> sysinfo option \<Rightarrow> int" where
  "calculate_optimal_workers current_workers utilization_info probe =
    (case probe of
       None \<Rightarrow> 16
     | Some s \<Rightarrow>
        (case (current_workers, utilization_info) of
           (Some w, Some u) \<Rightarrow> adjust_workers w u
         | _ \<Rightarrow> (case cpu_count s of
                   None \<Rightarrow> 16
                 | Some c \<Rightarrow> size_workers c (memory_gb s))))"

section \<open>Result store\<close>

text \<open>
  Modelled from the spec: the class \<^verbatim>\<open>PIIDatabase\<close> of \<^verbatim>\<open>src/database/db_utils.py\<close>
  is not among the sources, so the store follows section 4.1 of the specification. It
  holds the rows of the one job a scheduler run works on, in \<open>file_id\<close> order (the
  order of insertion), the entity rows and the job's status. The job's aggregate
  counters, its timestamps, the per-file timing and the metadata blob are left out: no
  statement below reads them. The \<open>job_id\<close> argument of the operations is left out
  with them.
\<close>

datatype file_status = Pending | Processing | Completed | Error

record file_record =
  file_id :: int
  file_path :: string
  fstatus :: file_status
  error_message :: "string option"

record entity =
  entity_type :: string
  entity_text :: string

record store =
  files :: "file_record list"
  entity_rows :: "(int \<times> entity) list"
  job_status :: string

text \<open>
  Modelled from the spec: \<open>GetPendingFiles\<close> returns up to \<open>limit\<close> rows with status
  pending, in \<open>file_id\<close> order.
\<close>

definition get_pending_files :: "store \<Rightarrow> int \<Rightarrow> (int \<times> string) list" where
  "get_pending_files st limit =
     map (\<lambda>r. (file_id r, file_path r))
       (take (nat limit) (filter (\<lambda>r. fstatus r = Pending) (files st)))"

text \<open>
  Modelled from the spec: the three conditional updates of a row. \<open>MarkFileProcessing\<close>
  moves a pending row to processing, \<open>MarkFileCompleted\<close> a processing row to
  completed, \<open>MarkFileError\<close> a processing row to error with its message; a row in
  another status is left as it is.
\<close>

definition claim_row :: "int \<Rightarrow> file_record \<Rightarrow> file_record" where
  "claim_row fid r =
     (if file_id r = fid \<and> fstatus r = Pending then r\<lparr>fstatus := Processing\<rparr> else r)"

definition complete_row :: "int \<Rightarrow> file_record \<Rightarrow> file_record" where
  "complete_row fid r =
     (if file_id r = fid \<and> fstatus r = Processing then r\<lparr>fstatus := Completed\<rparr> else r)"

definition fail_row :: "int \<Rightarrow> string \<Rightarrow> file_record \<Rightarrow> file_record" where
  "fail_row fid msg r =
     (if file_id r = fid \<and> fstatus r = Processing
      then r\<lparr>fstatus := Error, error_message := Some msg\<rparr> else r)"

text \<open>
  Modelled from the spec: \<open>MarkFileProcessing\<close> is the claim primitive; it returns
  true iff exactly one row was updated.
\<close>

definition mark_file_processing :: "store \<Rightarrow> int \<Rightarrow> bool \<times> store" where
  "mark_file_processing st fid =
     (length (filter (\<lambda>r. file_id r = fid \<and> fstatus r = Pending) (files st)) = 1,
      st\<lparr>files := map (claim_row fid) (files st)\<rparr>)"

text \<open>Modelled from the spec: \<open>StoreFileResults\<close> inserts the entity rows of a file.\<close>

definition store_file_results :: "store \<Rightarrow> int \<Rightarrow> entity list \<Rightarrow> store" where
  "store_file_results st fid ents = st\<lparr>entity_rows := entity_rows st @ map (Pair fid) ents\<rparr>"

definition mark_file_completed :: "store \<Rightarrow> int \<Rightarrow> store" where
  "mark_file_completed st fid = st\<lparr>files := map (complete_row fid) (files st)\<rparr>"

definition mark_file_error :: "store \<Rightarrow> int \<Rightarrow> string \<Rightarrow> store" where
  "mark_file_error st fid msg = st\<lparr>files := map (fail_row fid msg) (files st)\<rparr>"

text \<open>Modelled from the spec: \<open>UpdateJobStatus\<close> is an unconditional status write.\<close>

definition update_job_status :: "store \<Rightarrow> string \<Rightarrow> store" where
  "update_job_status st status = st\<lparr>job_status := status\<rparr>"

definition pending_count :: "store \<Rightarrow> nat" where
  "pending_count st = length (filter (\<lambda>r. fstatus r = Pending) (files st))"

section \<open>Workers and their futures\<close>

text \<open>
  What the external analyzer \<^verbatim>\<open>analyze_file\<close> does on a path: it returns a result
  dictionary (the \<^verbatim>\<open>success\<close> flag, the entities, an optional error message) or it
  raises.
\<close>

datatype analysis = Analysed bool "entity list" "string option" | AnalyzeRaised string

record result_dict =
  success :: bool
  res_file_id :: int
  res_file_path :: string
  entities :: "entity list"
  res_error_message :: "string option"

text \<open>
  \<^verbatim>\<open>process_single_file_process_safe\<close>, the entry point of a pool worker: it adds the
  file's id and path to the analyzer's result and turns any exception of the analyzer
  into a failed result. (The timing entry of the dictionary is left out.)
\<close>

definition process_single_file_process_safe ::
  "(string \<Rightarrow> analysis) \<Rightarrow> int \<Rightarrow> string \<Rightarrow> result_dict" where
  "process_single_file_process_safe analyze_file fid path =
     (case analyze_file path of
        Analysed ok ents err \<Rightarrow>
          \<lparr>success = ok, res_file_id = fid, res_file_path = path, entities = ents,
           res_error_message = err\<rparr>
      | AnalyzeRaised msg \<Rightarrow>
          \<lparr>success = False, res_file_id = fid, res_file_path = path, entities = [],
           res_error_message = Some (''Worker process exception: '' @ msg)\<rparr>)"

text \<open>
  The three ways \<^verbatim>\<open>future.result(timeout=WORKER_TIMEOUT_SECONDS)\<close> ends in the drain
  loop: it returns the worker's dictionary, it raises \<^verbatim>\<open>TimeoutError\<close>, or it raises
  another exception (a broken pool, a result that cannot be unpickled).
\<close>

datatype outcome = Returned result_dict | TimeoutError | Raised string

text \<open>The dictionary handed to \<^verbatim>\<open>progress_callback\<close>.\<close>

record progress_event =
  ev_type :: string
  ev_file_id :: "int option"
  ev_file_path :: "string option"
  ev_entities :: "entity list"
  ev_error :: "string option"

section \<open>The scheduler: process\_files\_parallel\<close>

text \<open>
  Everything the scheduler reads from outside is a field of \<open>env\<close>: what each
  submitted future yields, the order in which \<^verbatim>\<open>as_completed\<close> delivers the futures
  of the \<open>n\<close>-th batch, the value of \<^verbatim>\<open>stop_event.is_set()\<close> at its \<open>k\<close>-th call,
  whether the scaling interval has elapsed at the head of iteration \<open>n\<close>, the
  utilization reading and the psutil probe taken there, and the memory percentage read
  after batch \<open>n\<close>. The \<^verbatim>\<open>TimeoutError\<close> that the iterator of
  \<^verbatim>\<open>as_completed\<close> itself raises after twice the worker timeout leaves
  \<^verbatim>\<open>process_files_parallel\<close> as an exception; the loop below does not follow it
  (\<open>iterator_raises\<close> says when it happens). The log lines and the timing entries of
  the result are left out.
\<close>

record env =
  future_result :: "int \<Rightarrow> string \<Rightarrow> outcome"
  as_completed :: "nat \<Rightarrow> (int \<times> string) list \<Rightarrow> (int \<times> string) list"
  stop_is_set :: "nat \<Rightarrow> bool"
  scaling_due :: "nat \<Rightarrow> bool"
  get_system_utilization :: "nat \<Rightarrow> utilization"
  system_probe :: "nat \<Rightarrow> sysinfo option"
  startup_probe :: "sysinfo option"
  memory_percent_after :: "nat \<Rightarrow> real"

text \<open>
  The arguments of \<^verbatim>\<open>process_files_parallel\<close>. For the two optional callables only
  their presence matters: \<open>progress_callback\<close> says whether a sink was given,
  \<open>stop_event\<close> whether an event was given.
\<close>

record params =
  max_workers :: "int option"
  batch_size :: int
  max_files :: "int option"
  progress_callback :: bool
  enable_dynamic_scaling :: bool
  stop_event :: bool

record scaling_stats =
  adjustments :: int
  worker_increases :: int
  worker_decreases :: int
  batch_increases :: int
  batch_decreases :: int

text \<open>
  The calls the scheduler makes that the temporal statements speak about, in the order
  it makes them: a poll of the stop event with its answer, a call of
  \<^verbatim>\<open>get_pending_files\<close> with the rows it returned, a claim attempt with its answer,
  and the drain of one future.
\<close>

datatype action =
    Polled bool
  | Fetched "(int \<times> string) list"
  | Claimed int bool
  | Drained int

text \<open>
  The local variables of \<^verbatim>\<open>process_files_parallel\<close>, the store it writes to and
  the sink its progress events go to. \<open>polls\<close> counts the calls of
  \<^verbatim>\<open>is_set\<close> and \<open>iteration\<close> the batches drained so far; they index the fields of
  \<open>env\<close>. \<open>trace\<close> records the actions.
\<close>

record sched =
  db :: store
  files_remaining :: bool
  processed_count :: int
  error_count :: int
  current_batch_size :: int
  current_max_workers :: int
  stats :: scaling_stats
  stop_requested :: bool
  consecutive_errors :: int
  sink :: "progress_event list"
  polls :: nat
  iteration :: nat
  trace :: "action list"

text \<open>One call of \<^verbatim>\<open>stop_event is not None and stop_event.is_set()\<close>.\<close>

definition poll_stop :: "env \<Rightarrow> params \<Rightarrow> sched \<Rightarrow> bool \<times> sched" where
  "poll_stop e p s =
     (if stop_event p
      then (stop_is_set e (polls s),
            s\<lparr>polls := Suc (polls s), trace := trace s @ [Polled (stop_is_set e (polls s))]\<rparr>)
      else (False, s))"

subsection \<open>The scaling step (lines 326 to 374)\<close>

definition critical_batch_clamp :: "utilization \<Rightarrow> sched \<Rightarrow> sched" where
  "critical_batch_clamp u s =
     (if load_factor u > CRITICAL_LOAD_FACTOR \<and> current_batch_size s > MIN_BATCH_SIZE
      then s\<lparr>current_batch_size := MIN_BATCH_SIZE,
             stats := (stats s)\<lparr>batch_decreases := batch_decreases (stats s) + 1\<rparr>\<rparr>
      else s)"

definition adjust_worker_count :: "int \<Rightarrow> sched \<Rightarrow> sched" where
  "adjust_worker_count new_workers s =
     (if new_workers \<noteq> current_max_workers s
      then s\<lparr>current_max_workers := new_workers,
             stats := (if new_workers > current_max_workers s
                       then (stats s)\<lparr>adjustments := adjustments (stats s) + 1,
                                      worker_increases := worker_increases (stats s) + 1\<rparr>
                       else (stats s)\<lparr>adjustments := adjustments (stats s) + 1,
                                      worker_decreases := worker_decreases (stats s) + 1\<rparr>)\<rparr>
      else s)"

definition adjust_batch_size :: "utilization \<Rightarrow> sched \<Rightarrow> sched" where
  "adjust_batch_size u s =
     (if load_factor u < 0.8 \<and> cpu_percent u < MIN_CPU_UTILIZATION \<and> memory_percent u < 80 then
        (let new_batch_size = min MAX_BATCH_SIZE (current_batch_size s + BATCH_STEP_SIZE)
         in if new_batch_size \<noteq> current_batch_size s
            then s\<lparr>current_batch_size := new_batch_size,
                   stats := (stats s)\<lparr>batch_increases := batch_increases (stats s) + 1\<rparr>\<rparr>
            else s)
      else if load_factor u > MAX_LOAD_FACTOR \<or> cpu_percent u > MAX_CPU_UTILIZATION
              \<or> memory_percent u > 90 then
        (let new_batch_size = max MIN_BATCH_SIZE (current_batch_size s - BATCH_STEP_SIZE)
         in if new_batch_size \<noteq> current_batch_size s
            then s\<lparr>current_batch_size := new_batch_size,
                   stats := (stats s)\<lparr>batch_decreases := batch_decreases (stats s) + 1\<rparr>\<rparr>
            else s)
      else s)"

definition adapt :: "env \<Rightarrow> sched \<Rightarrow> sched" where
  "adapt e s =
     (let u = get_system_utilization e (iteration s);
          s1 = critical_batch_clamp u s;
          new_workers = calculate_optimal_workers (Some (current_max_workers s1)) (Some u)
                          (system_probe e (iteration s));
          s2 = adjust_worker_count new_workers s1
      in adjust_batch_size u s2)"

subsection \<open>Submitting a batch (lines 392 to 414)\<close>

fun submit_batch ::
  "sched \<Rightarrow> (int \<times> string) list \<Rightarrow> (int \<times> string) list \<Rightarrow> sched \<times> (int \<times> string) list" where
  "submit_batch s futures [] = (s, futures)"
| "submit_batch s futures ((fid, path) # rest) =
     (let (ok, db') = mark_file_processing (db s) fid;
          s' = s\<lparr>db := db', trace := trace s @ [Claimed fid ok]\<rparr>
      in if ok then submit_batch s' (futures @ [(fid, path)]) rest
         else submit_batch s' futures rest)"

subsection \<open>Draining a batch (lines 416 to 532)\<close>

definition error_msg_of :: "result_dict \<Rightarrow> string" where
  "error_msg_of r = (case res_error_message r of None \<Rightarrow> ''Unknown error'' | Some m \<Rightarrow> m)"

definition result_event :: "result_dict \<Rightarrow> progress_event" where
  "result_event r =
     \<lparr>ev_type = (if success r then ''file_completed'' else ''file_error''),
      ev_file_id = Some (res_file_id r),
      ev_file_path = Some (res_file_path r),
      ev_entities = entities r,
      ev_error = (if \<not> success r then res_error_message r else None)\<rparr>"

definition exception_event :: "string \<Rightarrow> progress_event" where
  "exception_event msg =
     \<lparr>ev_type = ''file_error'', ev_file_id = None, ev_file_path = None, ev_entities = [],
      ev_error = Some msg\<rparr>"

definition emit :: "params \<Rightarrow> progress_event \<Rightarrow> sched \<Rightarrow> sched" where
  "emit p ev s = (if progress_callback p then s\<lparr>sink := sink s @ [ev]\<rparr> else s)"

definition handle_result :: "params \<Rightarrow> result_dict \<Rightarrow> sched \<Rightarrow> sched" where
  "handle_result p r s =
     (let s1 = (if success r
                then s\<lparr>db := mark_file_completed
                              (store_file_results (db s) (res_file_id r) (entities r))
                              (res_file_id r),
                       processed_count := processed_count s + 1,
                       consecutive_errors := 0\<rparr>
                else s\<lparr>db := mark_file_error (db s) (res_file_id r) (error_msg_of r),
                       error_count := error_count s + 1,
                       consecutive_errors := consecutive_errors s + 1\<rparr>);
          s2 = emit p (result_event r) s1
      in if consecutive_errors s2 \<ge> MAX_CONSECUTIVE_ERRORS
         then s2\<lparr>stop_requested := True\<rparr> else s2)"

definition handle_timeout :: "int \<Rightarrow> sched \<Rightarrow> sched" where
  "handle_timeout fid s =
     (let s1 = (if fid \<noteq> 0
                then s\<lparr>db := mark_file_error (db s) fid ''Processing timeout (180s)''\<rparr>
                else s)
      in s1\<lparr>error_count := error_count s1 + 1,
            consecutive_errors := consecutive_errors s1 + 1\<rparr>)"

definition handle_exception :: "params \<Rightarrow> string \<Rightarrow> sched \<Rightarrow> sched" where
  "handle_exception p msg s =
     emit p (exception_event msg)
       (s\<lparr>error_count := error_count s + 1,
          consecutive_errors := consecutive_errors s + 1\<rparr>)"

definition drain_future :: "env \<Rightarrow> params \<Rightarrow> int \<times> string \<Rightarrow> sched \<Rightarrow> sched" where
  "drain_future e p f s0 =
     (let (b, s1) = poll_stop e p s0;
          s2 = (if b then s1\<lparr>stop_requested := True\<rparr> else s1);
          s3 = s2\<lparr>trace := trace s2 @ [Drained (fst f)]\<rparr>
      in case future_result e (fst f) (snd f) of
           Returned r \<Rightarrow> handle_result p r s3
         | TimeoutError \<Rightarrow> handle_timeout (fst f) s3
         | Raised msg \<Rightarrow> handle_exception p msg s3)"

definition drain_batch :: "env \<Rightarrow> params \<Rightarrow> (int \<times> string) list \<Rightarrow> sched \<Rightarrow> sched" where
  "drain_batch e p futures s =
     fold (drain_future e p) (as_completed e (iteration s) futures)
       (s\<lparr>stop_requested := False, consecutive_errors := 0\<rparr>)"

subsection \<open>One pass of the while loop (lines 319 to 555)\<close>

datatype 'a flow = Continue 'a | Break 'a

definition fetch_limit :: "params \<Rightarrow> sched \<Rightarrow> int" where
  "fetch_limit p s =
     min (current_batch_size s)
       (case max_files p of
          None \<Rightarrow> current_batch_size s
        | Some m \<Rightarrow> if m \<noteq> 0 then m - processed_count s else current_batch_size s)"

definition memory_check :: "env \<Rightarrow> sched \<Rightarrow> sched" where
  "memory_check e s =
     (if memory_percent_after e (iteration s) > 90
      then s\<lparr>current_batch_size := max MIN_BATCH_SIZE (current_batch_size s div 2)\<rparr>
      else s)"

definition run_batch :: "env \<Rightarrow> params \<Rightarrow> sched \<Rightarrow> sched flow" where
  "run_batch e p s =
     (let pending_files = get_pending_files (db s) (fetch_limit p s);
          s1 = s\<lparr>trace := trace s @ [Fetched pending_files]\<rparr>
      in if pending_files = [] then Break (s1\<lparr>files_remaining := False\<rparr>)
         else
           (let (s2, futures) = submit_batch s1 [] pending_files;
                s3 = drain_batch e p futures s2
            in if stop_requested s3 then Break (s3\<lparr>files_remaining := False\<rparr>)
               else Continue ((memory_check e s3)\<lparr>iteration := Suc (iteration s3)\<rparr>)))"

definition loop_body :: "env \<Rightarrow> params \<Rightarrow> sched \<Rightarrow> sched flow" where
  "loop_body e p s =
     (let (b, s1) = poll_stop e p s
      in if b then Break (s1\<lparr>files_remaining := False\<rparr>)
         else run_batch e p
                (if enable_dynamic_scaling p \<and> scaling_due e (iteration s1)
                 then adapt e s1 else s1))"

definition loop_guard :: "params \<Rightarrow> sched \<Rightarrow> bool" where
  "loop_guard p s =
     (files_remaining s \<and>
      (case max_files p of None \<Rightarrow> True | Some m \<Rightarrow> processed_count s < m))"

subsection \<open>The while loop and its termination\<close>

text \<open>
  A pass that does not leave the loop has claimed at least the first file it fetched,
  and nothing in a pass makes a row pending again: the number of pending rows is the
  measure of the loop.
\<close>

lemma pending_map_le:
  assumes "\<And>r. fstatus (f r) = Pending \<Longrightarrow> fstatus r = Pending"
  shows "length (filter (\<lambda>r. fstatus r = Pending) (map f xs))
         \<le> length (filter (\<lambda>r. fstatus r = Pending) xs)"
  using assms by (induction xs) auto

lemma pending_map_lt:
  assumes "\<And>r. fstatus (f r) = Pending \<Longrightarrow> fstatus r = Pending"
    and "r0 \<in> set xs" and "fstatus r0 = Pending" and "fstatus (f r0) \<noteq> Pending"
  shows "length (filter (\<lambda>r. fstatus r = Pending) (map f xs))
         < length (filter (\<lambda>r. fstatus r = Pending) xs)"
  using assms(2-)
proof (induction xs)
  case Nil then show ?case by simp
next
  case (Cons a xs)
  have le: "length (filter (\<lambda>r. fstatus r = Pending) (map f xs))
         \<le> length (filter (\<lambda>r. fstatus r = Pending) xs)"
    using assms(1) by (rule pending_map_le)
  show ?case
  proof (cases "a = r0")
    case True
    with Cons.prems le show ?thesis by simp
  next
    case False
    with Cons have "length (filter (\<lambda>r. fstatus r = Pending) (map f xs))
         < length (filter (\<lambda>r. fstatus r = Pending) xs)" by simp
    then show ?thesis using assms(1)[of a] by auto
  qed
qed

lemma pending_map_eq:
  assumes "\<And>r. (fstatus (f r) = Pending) = (fstatus r = Pending)"
  shows "length (filter (\<lambda>r. fstatus r = Pending) (map f xs))
         = length (filter (\<lambda>r. fstatus r = Pending) xs)"
  using assms by (induction xs) auto

lemma files_mark_processing:
  "files (snd (mark_file_processing st fid)) = map (claim_row fid) (files st)"
  by (simp add: mark_file_processing_def)

lemma files_mark_completed:
  "files (mark_file_completed st fid) = map (complete_row fid) (files st)"
  by (simp add: mark_file_completed_def)

lemma files_mark_error:
  "files (mark_file_error st fid msg) = map (fail_row fid msg) (files st)"
  by (simp add: mark_file_error_def)

lemma pc_mark_processing_le:
  "pending_count (snd (mark_file_processing st fid)) \<le> pending_count st"
proof -
  have "length (filter (\<lambda>r. fstatus r = Pending) (map (claim_row fid) (files st)))
         \<le> length (filter (\<lambda>r. fstatus r = Pending) (files st))"
    by (rule pending_map_le) (simp add: claim_row_def split: if_splits)
  then show ?thesis
    unfolding pending_count_def files_mark_processing .
qed

lemma pc_mark_processing_lt:
  assumes "r0 \<in> set (files st)" "fstatus r0 = Pending" "file_id r0 = fid"
  shows "pending_count (snd (mark_file_processing st fid)) < pending_count st"
proof -
  have "length (filter (\<lambda>r. fstatus r = Pending) (map (claim_row fid) (files st)))
         < length (filter (\<lambda>r. fstatus r = Pending) (files st))"
    by (rule pending_map_lt[where ?r0.0 = r0])
       (use assms in \<open>simp_all add: claim_row_def split: if_splits\<close>)
  then show ?thesis
    unfolding pending_count_def files_mark_processing .
qed

lemma pc_mark_completed [simp]:
  "pending_count (mark_file_completed st fid) = pending_count st"
proof -
  have "length (filter (\<lambda>r. fstatus r = Pending) (map (complete_row fid) (files st)))
         = length (filter (\<lambda>r. fstatus r = Pending) (files st))"
    by (rule pending_map_eq) (simp add: complete_row_def)
  then show ?thesis
    unfolding pending_count_def files_mark_completed .
qed

lemma pc_mark_error [simp]:
  "pending_count (mark_file_error st fid msg) = pending_count st"
proof -
  have "length (filter (\<lambda>r. fstatus r = Pending) (map (fail_row fid msg) (files st)))
         = length (filter (\<lambda>r. fstatus r = Pending) (files st))"
    by (rule pending_map_eq) (simp add: fail_row_def)
  then show ?thesis
    unfolding pending_count_def files_mark_error .
qed

lemma pc_store_results [simp]:
  "pending_count (store_file_results st fid ents) = pending_count st"
  by (simp add: pending_count_def store_file_results_def)

lemma pc_submit_le:
  "pending_count (db (fst (submit_batch s futures xs))) \<le> pending_count (db s)"
proof (induction xs arbitrary: s futures)
  case Nil then show ?case by simp
next
  case (Cons x xs)
  obtain fid path where x: "x = (fid, path)" by (cases x)
  obtain ok db' where m: "mark_file_processing (db s) fid = (ok, db')"
    by (cases "mark_file_processing (db s) fid")
  let ?s' = "s\<lparr>db := db', trace := trace s @ [Claimed fid ok]\<rparr>"
  let ?fs = "if ok then futures @ [(fid, path)] else futures"
  have step: "submit_batch s futures (x # xs) = submit_batch ?s' ?fs xs"
    using x m by simp
  have "pending_count db' \<le> pending_count (db s)"
    using pc_mark_processing_le[of "db s" fid] m by simp
  moreover have "pending_count (db (fst (submit_batch ?s' ?fs xs))) \<le> pending_count (db ?s')"
    by (rule Cons.IH)
  ultimately show ?case unfolding step by simp
qed

lemma pc_submit_lt:
  assumes "xs = get_pending_files (db s) limit" "xs \<noteq> []"
  shows "pending_count (db (fst (submit_batch s futures xs))) < pending_count (db s)"
proof -
  obtain fid path rest where xs: "xs = (fid, path) # rest"
    using assms(2) by (cases xs) auto
  let ?pend = "take (nat limit) (filter (\<lambda>r. fstatus r = Pending) (files (db s)))"
  from assms(1) xs obtain r0 rs where pr: "?pend = r0 # rs" and fr: "file_id r0 = fid"
    by (auto simp: get_pending_files_def map_eq_Cons_conv)
  have "r0 \<in> set ?pend" using pr by simp
  then have "r0 \<in> set (filter (\<lambda>r. fstatus r = Pending) (files (db s)))"
    by (rule in_set_takeD)
  then have r0: "r0 \<in> set (files (db s))" "fstatus r0 = Pending" by simp_all
  obtain ok db' where m: "mark_file_processing (db s) fid = (ok, db')"
    by (cases "mark_file_processing (db s) fid")
  have lt: "pending_count db' < pending_count (db s)"
    using pc_mark_processing_lt[OF r0 fr] m by simp
  let ?s' = "s\<lparr>db := db', trace := trace s @ [Claimed fid ok]\<rparr>"
  have "pending_count (db (fst (submit_batch ?s' (if ok then futures @ [(fid, path)] else futures) rest)))
        \<le> pending_count (db ?s')" by (rule pc_submit_le)
  then show ?thesis using lt xs m by (auto simp: Let_def)
qed

lemma db_poll_stop [simp]: "db (snd (poll_stop e p s)) = db s"
  by (simp add: poll_stop_def)

lemma db_emit [simp]: "db (emit p ev s) = db s"
  by (simp add: emit_def)

lemma pc_handle_result [simp]:
  "pending_count (db (handle_result p r s)) = pending_count (db s)"
  by (simp add: handle_result_def Let_def)

lemma pc_handle_timeout [simp]:
  "pending_count (db (handle_timeout fid s)) = pending_count (db s)"
  by (simp add: handle_timeout_def Let_def)

lemma pc_handle_exception [simp]:
  "pending_count (db (handle_exception p msg s)) = pending_count (db s)"
  by (simp add: handle_exception_def)

lemma pc_drain_future [simp]:
  "pending_count (db (drain_future e p f s)) = pending_count (db s)"
  by (simp add: drain_future_def Let_def split: prod.splits outcome.splits)
     (metis db_poll_stop snd_conv)

lemma pc_fold_drain [simp]:
  "pending_count (db (fold (drain_future e p) fs s)) = pending_count (db s)"
  by (induction fs arbitrary: s) simp_all

lemma pc_drain_batch [simp]:
  "pending_count (db (drain_batch e p futures s)) = pending_count (db s)"
  by (simp add: drain_batch_def)

lemma db_memory_check [simp]: "db (memory_check e s) = db s"
  by (simp add: memory_check_def)

lemma db_adapt [simp]: "db (adapt e s) = db s"
  by (simp add: adapt_def Let_def adjust_batch_size_def adjust_worker_count_def
      critical_batch_clamp_def)

lemma pc_run_batch:
  assumes "run_batch e p s = Continue s'"
  shows "pending_count (db s') < pending_count (db s)"
proof -
  let ?xs = "get_pending_files (db s) (fetch_limit p s)"
  let ?s1 = "s\<lparr>trace := trace s @ [Fetched ?xs]\<rparr>"
  from assms have ne: "?xs \<noteq> []"
    by (auto simp: run_batch_def Let_def split: if_splits)
  obtain s2 futures where sb: "submit_batch ?s1 [] ?xs = (s2, futures)"
    by (cases "submit_batch ?s1 [] ?xs")
  have "pending_count (db (fst (submit_batch ?s1 [] ?xs))) < pending_count (db ?s1)"
    by (rule pc_submit_lt[where limit = "fetch_limit p s"]) (use ne in simp_all)
  then have lt: "pending_count (db s2) < pending_count (db s)" using sb by simp
  from assms ne sb have "s' = (memory_check e (drain_batch e p futures s2))
                               \<lparr>iteration := Suc (iteration (drain_batch e p futures s2))\<rparr>"
    by (auto simp: run_batch_def Let_def split: if_splits)
  then show ?thesis using lt by simp
qed

lemma pc_loop_body:
  assumes "loop_body e p s = Continue s'"
  shows "pending_count (db s') < pending_count (db s)"
proof -
  obtain b s1 where ps: "poll_stop e p s = (b, s1)" by (cases "poll_stop e p s")
  then have d: "db s1 = db s" using db_poll_stop[of e p s] by simp
  from assms ps have
    "run_batch e p (if enable_dynamic_scaling p \<and> scaling_due e (iteration s1)
                    then adapt e s1 else s1) = Continue s'"
    by (auto simp: loop_body_def split: if_splits)
  from pc_run_batch[OF this] d show ?thesis by (simp split: if_splits)
qed

function main_loop :: "env \<Rightarrow> params \<Rightarrow> sched \<Rightarrow> sched" where
  "main_loop e p s =
     (if loop_guard p s
      then (case loop_body e p s of
              Break s' \<Rightarrow> s'
            | Continue s' \<Rightarrow> main_loop e p s')
      else s)"
  by pat_completeness auto
termination
  by (relation "measure (\<lambda>(e, p, s). pending_count (db s))") (auto dest: pc_loop_body)

declare main_loop.simps [simp del]

subsection \<open>The whole function\<close>

text \<open>
  The returned dictionary, without its two timing entries (\<^verbatim>\<open>elapsed\<close> and
  \<^verbatim>\<open>rate\<close>). \<open>scaling\<close> is \<open>None\<close> for the empty dictionary returned when
  dynamic scaling is off.
\<close>

record run_result =
  processed :: int
  errors :: int
  status :: string
  scaling :: "scaling_stats option"

definition initial_sched :: "env \<Rightarrow> params \<Rightarrow> store \<Rightarrow> sched" where
  "initial_sched e p st =
     \<lparr>db = st,
      files_remaining = True,
      processed_count = 0,
      error_count = 0,
      current_batch_size = batch_size p,
      current_max_workers =
        (case max_workers p of
           None \<Rightarrow> calculate_optimal_workers None None (startup_probe e)
         | Some w \<Rightarrow> if w = 0 then calculate_optimal_workers None None (startup_probe e)
                     else w),
      stats = \<lparr>adjustments = 0, worker_increases = 0, worker_decreases = 0,
               batch_increases = 0, batch_decreases = 0\<rparr>,
      stop_requested = False,
      consecutive_errors = 0,
      sink = [],
      polls = 0,
      iteration = 0,
      trace = []\<rparr>"

definition final_status :: "sched \<Rightarrow> string" where
  "final_status s = (if \<not> files_remaining s then ''completed'' else ''interrupted'')"

definition process_files_parallel :: "env \<Rightarrow> params \<Rightarrow> store \<Rightarrow> run_result \<times> sched" where
  "process_files_parallel e p st =
     (let s = main_loop e p (initial_sched e p st);
          s' = s\<lparr>db := update_job_status (db s) (final_status s)\<rparr>
      in (\<lparr>processed = processed_count s,
           errors = error_count s,
           status = final_status s,
           scaling = (if enable_dynamic_scaling p then Some (stats s) else None)\<rparr>,
          s'))"

text \<open>
  The states of a run: the state at the head of each pass of the loop, followed by the
  state the loop ends in. Its last element is the result of \<open>main_loop\<close>.
\<close>

function loop_states :: "env \<Rightarrow> params \<Rightarrow> sched \<Rightarrow> sched list" where
  "loop_states e p s =
     s # (if loop_guard p s
          then (case loop_body e p s of
                  Break s' \<Rightarrow> [s']
                | Continue s' \<Rightarrow> loop_states e p s')
          else [])"
  by pat_completeness auto
termination
  by (relation "measure (\<lambda>(e, p, s). pending_count (db s))") (auto dest: pc_loop_body)

declare loop_states.simps [simp del]

section \<open>The pool and its clock\<close>

text \<open>
  Modelled from the documentation of \<^verbatim>\<open>concurrent.futures\<close>:
  \<^verbatim>\<open>as_completed(fs, timeout)\<close> yields the futures as they finish, those already
  finished first, and its iterator raises \<^verbatim>\<open>TimeoutError\<close> when the next future
  has not finished \<open>timeout\<close> seconds after the call of \<^verbatim>\<open>as_completed\<close>;
  \<^verbatim>\<open>Future.result(timeout)\<close> waits only for a future that has not finished, and on a
  finished one returns its value, or raises the exception it ended with, at once.

  A \<open>pool\<close> says what the workers of a run do: what \<^verbatim>\<open>analyze_file\<close> does on a
  path, how many seconds after the call of \<^verbatim>\<open>as_completed\<close> the future of a file
  finishes, and whether the pool itself fails on a file (a worker process that died, a
  result that cannot be pickled) and with which text. The entry point
  \<^verbatim>\<open>process_single_file_process_safe\<close> catches every \<^verbatim>\<open>Exception\<close>, so a future
  ends with an exception only in that last case. The time the drain loop itself takes
  between two futures is taken as nothing.
\<close>

record pool =
  analyze_file :: "string \<Rightarrow> analysis"
  finishes_after :: "int \<Rightarrow> nat"
  pool_failure :: "int \<Rightarrow> string option"

text \<open>
  \<^verbatim>\<open>future.result(timeout=WORKER_TIMEOUT_SECONDS)\<close> on a future that
  \<^verbatim>\<open>as_completed\<close> has yielded: the future has finished, so the call does not wait.
\<close>

definition library_future_result :: "pool \<Rightarrow> int \<Rightarrow> string \<Rightarrow> outcome" where
  "library_future_result pl fid path =
     (case pool_failure pl fid of
        Some msg \<Rightarrow> Raised msg
      | None \<Rightarrow> Returned (process_single_file_process_safe (analyze_file pl) fid path))"

text \<open>
  \<^verbatim>\<open>as_completed(futures, timeout=WORKER_TIMEOUT_SECONDS * 2)\<close>: the futures that
  finish within the timeout, in the order they finish (futures that finish together in
  the order of submission), and whether the iterator then raises \<^verbatim>\<open>TimeoutError\<close>.
  That exception is raised by the \<^verbatim>\<open>for\<close> statement of line 425, outside the
  \<^verbatim>\<open>try\<close> of the loop body, and leaves \<^verbatim>\<open>process_files_parallel\<close>.
\<close>

definition library_as_completed :: "pool \<Rightarrow> (int \<times> string) list \<Rightarrow> (int \<times> string) list" where
  "library_as_completed pl futures =
     sort_key (\<lambda>f. finishes_after pl (fst f))
       (filter (\<lambda>f. int (finishes_after pl (fst f)) \<le> WORKER_TIMEOUT_SECONDS * 2) futures)"

definition iterator_raises :: "pool \<Rightarrow> (int \<times> string) list \<Rightarrow> bool" where
  "iterator_raises pl futures =
     list_ex (\<lambda>f. WORKER_TIMEOUT_SECONDS * 2 < int (finishes_after pl (fst f))) futures"

text \<open>
  The environment of a run on a pool: the futures and their order are the library's,
  the other readings are those of \<open>e\<close>.
\<close>

definition pool_env :: "pool \<Rightarrow> env \<Rightarrow> env" where
  "pool_env pl e =
     e\<lparr>future_result := library_future_result pl,
       as_completed := (\<lambda>n. library_as_completed pl)\<rparr>"

section \<open>The analysis service\<close>

text \<open>
  The part of the file system \<^verbatim>\<open>src/api/analysis_service.py\<close> touches: a path names
  a regular file, a directory or nothing. \<^verbatim>\<open>os.remove\<close> raises \<^verbatim>\<open>OSError\<close> on a
  directory and on a missing path, and also on a regular file that the operating system
  refuses to unlink (a read-only or foreign directory, an immutable file, a read-only
  mount); \<open>unlink_refused\<close> says for which paths that is so. The text \<^verbatim>\<open>str(e)\<close>
  of the exception is made by the operating system and the C library; it is the input
  \<open>remove_error\<close>. The exception is the \<open>Inl\<close> of the result of \<open>os_remove\<close>.
\<close>

datatype node = RegularFile | Directory

record filesystem =
  node_at :: "string \<Rightarrow> node option"
  unlink_refused :: "string \<Rightarrow> bool"
  remove_error :: "string \<Rightarrow> string"

definition isdir :: "filesystem \<Rightarrow> string \<Rightarrow> bool" where
  "isdir fs path = (node_at fs path = Some Directory)"

definition path_exists :: "filesystem \<Rightarrow> string \<Rightarrow> bool" where
  "path_exists fs path = (node_at fs path \<noteq> None)"

definition os_remove :: "filesystem \<Rightarrow> string \<Rightarrow> string + filesystem" where
  "os_remove fs path =
     (case node_at fs path of
        Some RegularFile \<Rightarrow>
          if unlink_refused fs path then Inl (remove_error fs path)
          else Inr (fs\<lparr>node_at := (node_at fs)(path := None)\<rparr>)
      | Some Directory \<Rightarrow> Inl (remove_error fs path)
      | None \<Rightarrow> Inl (remove_error fs path))"

datatype AnalysisState = IDLE | SCANNING | PROCESSING | STOPPING | COMPLETED | ERROR

fun state_value :: "AnalysisState \<Rightarrow> string" where
  "state_value IDLE = ''idle''"
| "state_value SCANNING = ''scanning''"
| "state_value PROCESSING = ''processing''"
| "state_value STOPPING = ''stopping''"
| "state_value COMPLETED = ''completed''"
| "state_value ERROR = ''error''"

text \<open>
  The fields of \<^verbatim>\<open>AnalysisService\<close> that its operations read or write. The stop
  event is its flag; \<open>threads_started\<close> counts the background threads the service
  has started on \<^verbatim>\<open>_run_analysis\<close>; a time is the clock reading it was set from.
\<close>

record service =
  state :: AnalysisState
  current_job_id :: "int option"
  threads_started :: nat
  stop_requested_event :: bool
  progress :: "(string \<times> int) list"
  service_error_message :: "string option"
  db_path :: string
  data_path :: string
  start_time :: "nat option"
  end_time :: "nat option"

text \<open>The dictionary an operation of the service returns.\<close>

record response =
  resp_success :: bool
  resp_error :: "string option"
  resp_message :: "string option"
  resp_state :: string

definition is_running :: "service \<Rightarrow> bool" where
  "is_running svc = (state svc = SCANNING \<or> state svc = PROCESSING)"

definition can_start :: "service \<Rightarrow> bool" where
  "can_start svc = (state svc = IDLE)"

text \<open>
  \<^verbatim>\<open>start_analysis\<close>; \<open>now\<close> is the reading of the clock. The thread it starts
  runs beside it, so the state it reports on success is the state it found.
\<close>

definition start_analysis :: "nat \<Rightarrow> filesystem \<Rightarrow> service \<Rightarrow> response \<times> service" where
  "start_analysis now fs svc =
     (if is_running svc then
        (\<lparr>resp_success = False, resp_error = Some ''Analysis is already running'',
          resp_message = None, resp_state = state_value (state svc)\<rparr>, svc)
      else if \<not> isdir fs (data_path svc) then
        (\<lparr>resp_success = False,
          resp_error = Some (''Data path does not exist: '' @ data_path svc),
          resp_message = None, resp_state = state_value (state svc)\<rparr>, svc)
      else
        (\<lparr>resp_success = True, resp_error = None,
          resp_message = Some ''Analysis started'', resp_state = state_value (state svc)\<rparr>,
         svc\<lparr>stop_requested_event := False,
             service_error_message := None,
             progress := [],
             start_time := Some now,
             end_time := None,
             threads_started := Suc (threads_started svc)\<rparr>))"

definition stop_analysis :: "service \<Rightarrow> response \<times> service" where
  "stop_analysis svc =
     (if \<not> is_running svc then
        (\<lparr>resp_success = False, resp_error = Some ''No analysis is running'',
          resp_message = None, resp_state = state_value (state svc)\<rparr>, svc)
      else
        (\<lparr>resp_success = True, resp_error = None,
          resp_message =
            Some ''Stop requested. Analysis will stop after current batch completes.'',
          resp_state = state_value STOPPING\<rparr>,
         svc\<lparr>state := STOPPING, stop_requested_event := True\<rparr>))"

definition reset_service :: "service \<Rightarrow> service" where
  "reset_service svc =
     svc\<lparr>state := IDLE, current_job_id := None, progress := [],
         service_error_message := None, start_time := None, end_time := None\<rparr>"

definition clear_results :: "filesystem \<Rightarrow> service \<Rightarrow> response \<times> service \<times> filesystem" where
  "clear_results fs svc =
     (if is_running svc then
        (\<lparr>resp_success = False,
          resp_error = Some ''Cannot clear results while analysis is running'',
          resp_message = None, resp_state = state_value (state svc)\<rparr>, svc, fs)
      else
        (case (if path_exists fs (db_path svc) then os_remove fs (db_path svc) else Inr fs) of
           Inr fs' \<Rightarrow>
             (\<lparr>resp_success = True, resp_error = None,
               resp_message = Some ''Results cleared successfully'',
               resp_state = state_value IDLE\<rparr>, reset_service svc, fs')
         | Inl err \<Rightarrow>
             (\<lparr>resp_success = False, resp_error = Some err, resp_message = None,
               resp_state = state_value (state svc)\<rparr>, svc, fs)))"

section \<open>The wording of the specification\<close>

text \<open>
  The two load-reduction rules as the table of section 4.3 of the specification writes
  them, with its constant \<open>MIN_WORKERS = 8\<close>; they are compared with
  \<open>adjust_workers\<close> below.
\<close>

definition MIN_WORKERS :: int where
  "MIN_WORKERS = 8"

definition spec_critical_workers :: "int \<Rightarrow> int" where
  "spec_critical_workers w = max MIN_WORKERS (w - max WORKER_EMERGENCY_REDUCTION (w div 3))"

definition spec_high_load_workers :: "int \<Rightarrow> int" where
  "spec_high_load_workers w = max MIN_WORKERS (w - max (2 * WORKER_STEP_SIZE) (w div 5))"

text \<open>
  The initial worker sizing as section 4.3 of the specification writes it, for \<open>C\<close>
  logical CPUs and \<open>M\<close> GB of memory, with exact products and floors.
\<close>

definition spec_initial_workers :: "int \<Rightarrow> real \<Rightarrow> int" where
  "spec_initial_workers C M =
     (if C \<ge> 96 then min (min \<lfloor>0.5 * real_of_int C\<rfloor> \<lfloor>0.7 * M\<rfloor>) 64
      else if 32 \<le> C then min (min 24 \<lfloor>0.75 * real_of_int C\<rfloor>) \<lfloor>0.6 * M\<rfloor>
      else if 8 \<le> C then min (max 4 \<lfloor>0.8 * real_of_int C\<rfloor>) \<lfloor>0.6 * M\<rfloor>
      else min (max 2 \<lfloor>0.9 * real_of_int C\<rfloor>) \<lfloor>0.6 * M\<rfloor>)"

section \<open>Observations of a run\<close>

text \<open>
  Fetching a batch and claiming a file are the two actions that admit new work.
  \<open>stop_respected\<close> holds of a trace when nothing is admitted after the first poll
  that found the stop event set; \<open>drained\<close> lists the files whose futures were
  drained, in order.
\<close>

fun is_admission :: "action \<Rightarrow> bool" where
  "is_admission (Fetched xs) = True"
| "is_admission (Claimed fid ok) = True"
| "is_admission (Polled b) = False"
| "is_admission (Drained fid) = False"

fun stop_respected :: "action list \<Rightarrow> bool" where
  "stop_respected [] = True"
| "stop_respected (Polled b # rest) =
     (if b then list_all (\<lambda>a. \<not> is_admission a) rest else stop_respected rest)"
| "stop_respected (Fetched xs # rest) = stop_respected rest"
| "stop_respected (Claimed fid ok # rest) = stop_respected rest"
| "stop_respected (Drained fid # rest) = stop_respected rest"

fun drained :: "action list \<Rightarrow> int list" where
  "drained [] = []"
| "drained (Drained fid # rest) = fid # drained rest"
| "drained (Polled b # rest) = drained rest"
| "drained (Fetched xs # rest) = drained rest"
| "drained (Claimed fid ok # rest) = drained rest"

text \<open>
  \<open>polled_fetches\<close> holds of a trace when every fetch of a batch comes directly
  after a poll that found the stop event clear.
\<close>

fun is_fetch :: "action \<Rightarrow> bool" where
  "is_fetch (Fetched xs) = True"
| "is_fetch (Claimed fid ok) = False"
| "is_fetch (Polled b) = False"
| "is_fetch (Drained fid) = False"

fun polled_fetches :: "action list \<Rightarrow> bool" where
  "polled_fetches [] = True"
| "polled_fetches (Polled b # Fetched xs # rest) = (\<not> b \<and> polled_fetches rest)"
| "polled_fetches (Fetched xs # rest) = False"
| "polled_fetches (Polled b # rest) = polled_fetches rest"
| "polled_fetches (Claimed fid ok # rest) = polled_fetches rest"
| "polled_fetches (Drained fid # rest) = polled_fetches rest"

text \<open>
  The pending rows of a store in table order, the key \<open>GetPendingFiles\<close> returns for
  a row, and the ids of all rows.
\<close>

definition pending_rows_of :: "store \<Rightarrow> file_record list" where
  "pending_rows_of st = filter (\<lambda>r. fstatus r = Pending) (files st)"

definition row_key :: "file_record \<Rightarrow> int \<times> string" where
  "row_key r = (file_id r, file_path r)"

definition file_ids :: "store \<Rightarrow> int list" where
  "file_ids st = map file_id (files st)"

text \<open>
  The four counters of the drain loop that decide how a batch ends, and what one
  outcome does to them when no poll finds the stop event set: the stop request, the
  consecutive errors, the files processed and the errors.
\<close>

definition tally :: "sched \<Rightarrow> bool \<times> int \<times> int \<times> int" where
  "tally s = (stop_requested s, consecutive_errors s, processed_count s, error_count s)"

fun tally_step :: "outcome \<Rightarrow> bool \<times> int \<times> int \<times> int \<Rightarrow> bool \<times> int \<times> int \<times> int" where
  "tally_step (Returned r) (st, c, pc, ec) =
     (if success r then (st, 0, pc + 1, ec)
      else (st \<or> MAX_CONSECUTIVE_ERRORS \<le> c + 1, c + 1, pc, ec + 1))"
| "tally_step TimeoutError (st, c, pc, ec) = (st, c + 1, pc, ec + 1)"
| "tally_step (Raised msg) (st, c, pc, ec) = (st, c + 1, pc, ec + 1)"


section \<open>Concrete runs\<close>

text \<open>
  A store of \<open>n\<close> pending files with ids \<open>1..n\<close> and distinct paths; analyzers
  that always succeed, always fail, and fail exactly on the files 11 to 60; an
  environment in which futures complete in submission order, the stop event is never
  set, the scaling interval never elapses and memory stays at 50 percent; the default
  arguments of the service (batches of 50).
\<close>

definition numbered_path :: "int \<Rightarrow> string" where
  "numbered_path i =
     ''/data/f'' @ [''0123456789'' ! nat (i div 100 mod 10),
                    ''0123456789'' ! nat (i div 10 mod 10),
                    ''0123456789'' ! nat (i mod 10)]"

definition pending_row :: "int \<Rightarrow> file_record" where
  "pending_row i =
     \<lparr>file_id = i, file_path = numbered_path i, fstatus = Pending, error_message = None\<rparr>"

definition fresh_store :: "int \<Rightarrow> store" where
  "fresh_store n = \<lparr>files = map pending_row [1..n], entity_rows = [], job_status = ''running''\<rparr>"

definition always_succeeds :: "int \<Rightarrow> analysis" where
  "always_succeeds fid = Analysed True [] None"

definition always_fails :: "int \<Rightarrow> analysis" where
  "always_fails fid = Analysed False [] (Some ''analysis failed'')"

definition burst_of_failures :: "int \<Rightarrow> analysis" where
  "burst_of_failures fid =
     (if 11 \<le> fid \<and> fid \<le> 60 then Analysed False [] (Some ''analysis failed'')
      else Analysed True [] None)"

definition quiet_env :: "(int \<Rightarrow> analysis) \<Rightarrow> env" where
  "quiet_env analyze =
     \<lparr>future_result =
        (\<lambda>fid path. Returned (process_single_file_process_safe (\<lambda>_. analyze fid) fid path)),
      as_completed = (\<lambda>n fs. fs),
      stop_is_set = (\<lambda>k. False),
      scaling_due = (\<lambda>n. False),
      get_system_utilization = (\<lambda>n. \<lparr>cpu_percent = 50, memory_percent = 50, load_factor = 1\<rparr>),
      system_probe = (\<lambda>n. None),
      startup_probe = None,
      memory_percent_after = (\<lambda>n. 50)\<rparr>"

definition default_params :: params where
  "default_params =
     \<lparr>max_workers = Some 16, batch_size = 50, max_files = None, progress_callback = True,
      enable_dynamic_scaling = True, stop_event = True\<rparr>"

text \<open>
  Variations: the stop event is set from its third poll on; the scaling step runs at
  every pass on a 32-core machine under a given load.
\<close>

definition stopping_env :: env where
  "stopping_env = (quiet_env always_succeeds)\<lparr>stop_is_set := (\<lambda>k. 2 \<le> k)\<rparr>"

definition busy_machine :: sysinfo where
  "busy_machine = \<lparr>cpu_count = Some 32, memory_total = 2 ^ 36\<rparr>"

definition critical_load :: utilization where
  "critical_load = \<lparr>cpu_percent = 50, memory_percent = 50, load_factor = 2.5\<rparr>"

definition high_load :: utilization where
  "high_load = \<lparr>cpu_percent = 50, memory_percent = 50, load_factor = 1.8\<rparr>"

definition loaded_env :: "utilization \<Rightarrow> env" where
  "loaded_env u =
     (quiet_env always_succeeds)
       \<lparr>scaling_due := (\<lambda>n. True), get_system_utilization := (\<lambda>n. u),
        system_probe := (\<lambda>n. Some busy_machine)\<rparr>"

text \<open>
  The two runs of the scheduler the breaker is examined on: 100 files of which the
  files 11 to 60 fail, and 50 files that all fail.
\<close>

definition burst_run :: "run_result \<times> sched" where
  "burst_run =
     process_files_parallel (quiet_env burst_of_failures) default_params (fresh_store 100)"

definition all_fail_run :: "run_result \<times> sched" where
  "all_fail_run =
     process_files_parallel (quiet_env always_fails) default_params (fresh_store 50)"

text \<open>
  A pool whose analyzer succeeds on every file and whose workers all take the same number
  of seconds, and the state of the scheduler after it has submitted the only file of a
  job.
\<close>

definition steady_pool :: "nat \<Rightarrow> pool" where
  "steady_pool seconds =
     \<lparr>analyze_file = (\<lambda>path. Analysed True [] None),
      finishes_after = (\<lambda>fid. seconds),
      pool_failure = (\<lambda>fid. None)\<rparr>"

definition slow_run :: "run_result \<times> sched" where
  "slow_run =
     process_files_parallel (pool_env (steady_pool 200) (quiet_env always_succeeds))
       default_params (fresh_store 1)"

definition one_submitted :: sched where
  "one_submitted =
     fst (submit_batch (initial_sched (quiet_env always_succeeds) default_params (fresh_store 1))
            [] [(1, numbered_path 1)])"

text \<open>
  A file system with the data directory and the database file; the same with the
  database file in a directory the process may not write to; one with no database file;
  and a service.
\<close>

definition sample_fs :: filesystem where
  "sample_fs =
     \<lparr>node_at = (\<lambda>p. None)(''/data'' \<mapsto> Directory, ''/app/db/pii_results.db'' \<mapsto> RegularFile),
      unlink_refused = (\<lambda>p. False),
      remove_error = (\<lambda>p. ''[Errno 2] No such file or directory: '' @ p)\<rparr>"

definition read_only_fs :: filesystem where
  "read_only_fs =
     sample_fs\<lparr>unlink_refused := (\<lambda>p. True),
               remove_error := (\<lambda>p. ''[Errno 13] Permission denied: '' @ p)\<rparr>"

definition fresh_fs :: filesystem where
  "fresh_fs = sample_fs\<lparr>node_at := (\<lambda>p. None)(''/data'' \<mapsto> Directory)\<rparr>"

definition sample_service :: "AnalysisState \<Rightarrow> service" where
  "sample_service st =
     \<lparr>state = st, current_job_id = Some 1, threads_started = 1, stop_requested_event = True,
      progress = [(''files_discovered'', 7)], service_error_message = None,
      db_path = ''/app/db/pii_results.db'', data_path = ''/data'',
      start_time = Some 10, end_time = None\<rparr>"

section \<open>Properties of calculate\_optimal\_workers\<close>

text \<open>
  The literals are the doubles nearest to the decimals: each lies within half a unit in
  the last place, \<open>2^-54\<close> for a number between a half and one.
\<close>

lemma literals_nearest:
  "float_value float_0_5 = 0.5"
  "float_value float_0_75 = 0.75"
  "\<bar>float_value float_0_6 - 0.6\<bar> < 1 / 2 ^ 54"
  "\<bar>float_value float_0_7 - 0.7\<bar> < 1 / 2 ^ 54"
  "\<bar>float_value float_0_8 - 0.8\<bar> < 1 / 2 ^ 54"
  "\<bar>float_value float_0_9 - 0.9\<bar> < 1 / 2 ^ 54"
  by (simp_all add: float_0_5_def float_0_75_def float_0_6_def float_0_7_def float_0_8_def float_0_9_def)

text \<open>
  Rounding leaves an integer below \<open>2^53\<close> as it is, so the memory total of any
  machine below 8 PiB is divided by \<open>2^30\<close> exactly.
\<close>

lemma round53_small: "0 \<le> n \<Longrightarrow> n < 2 ^ 53 \<Longrightarrow> round53 n = n"
  by (simp add: round53_def round_magnitude_def bitlen_le_iff_power)

lemma memory_gb_exact:
  "T < 2 ^ 53 \<Longrightarrow> float_value (memory_gb \<lparr>cpu_count = c, memory_total = T\<rparr>) = real T / 2 ^ 30"
proof -
  assume "T < 2 ^ 53"
  then have "int T < 2 ^ 53" by (metis of_nat_less_iff of_nat_numeral of_nat_power)
  then show ?thesis by (simp add: memory_gb_def int_over_gib_def round53_small)
qed

lemma round_half_even_lower: "0 < d \<Longrightarrow> n div d \<le> round_half_even n d"
  by (simp add: round_half_even_def Let_def)

lemma round_magnitude_large:
  assumes "128 \<le> n"
  shows "128 \<le> round_magnitude n"
proof (cases "bitlen n \<le> 53")
  case True
  then show ?thesis using assms by (simp add: round_magnitude_def)
next
  case False
  define s where "s = nat (bitlen n - 53)"
  define d :: int where "d = 2 ^ s"
  have dpos: "0 < d" "1 \<le> d" by (simp_all add: d_def)
  have npos: "0 < n" using assms by simp
  have "nat (bitlen n - 1) = s + 52" using False by (simp add: s_def)
  then have "(2::int) ^ (s + 52) \<le> n" using bitlen_bounds[OF npos] by simp
  then have A: "2 ^ 52 * d \<le> n" by (simp add: d_def power_add mult.commute)
  have "(2 ^ 52 * d) div d \<le> n div d" using A dpos(1) by (rule zdiv_mono1)
  then have "2 ^ 52 \<le> n div d" using dpos by simp
  also have "n div d \<le> round_half_even n d" using dpos(1) by (rule round_half_even_lower)
  finally have q: "2 ^ 52 \<le> round_half_even n d" .
  have "(128::int) \<le> 2 ^ 52 * 1" by simp
  also have "\<dots> \<le> round_half_even n d * d"
    using q dpos(2) by (intro mult_mono) simp_all
  finally show ?thesis using False by (simp add: round_magnitude_def s_def d_def)
qed

lemma round_magnitude_nonneg: "0 \<le> n \<Longrightarrow> 0 \<le> round_magnitude n"
proof (cases "bitlen n \<le> 53")
  case True
  assume "0 \<le> n" with True show ?thesis by (simp add: round_magnitude_def)
next
  case False
  assume n: "0 \<le> n"
  have "0 \<le> n div 2 ^ nat (bitlen n - 53)" using n by (simp add: pos_imp_zdiv_nonneg_iff)
  also have "\<dots> \<le> round_half_even n (2 ^ nat (bitlen n - 53))"
    by (rule round_half_even_lower) simp
  finally show ?thesis using False by (simp add: round_magnitude_def)
qed

lemma round53_large: "128 \<le> n \<Longrightarrow> 128 \<le> round53 n"
  by (simp add: round53_def round_magnitude_large)

lemma round53_nonpos: "n \<le> 0 \<Longrightarrow> round53 n \<le> 0"
  using round_magnitude_nonneg[of "- n"] round_magnitude_nonneg[of 0]
  by (cases "n = 0") (auto simp: round53_def round_magnitude_def)

lemma py_int_nonpos: "m \<le> 0 \<Longrightarrow> py_int (Dyadic m k) \<le> 0"
  by (cases "m = 0") (simp_all add: pos_imp_zdiv_nonneg_iff)

lemma half_of_large:
  assumes "128 \<le> c"
  shows "64 \<le> py_int (float_mul (float_of_int c) float_0_5)"
proof -
  have "128 \<le> round53 (round53 c)" using assms by (intro round53_large)
  then show ?thesis by (simp add: float_of_int_def float_0_5_def)
qed

lemma product_of_negative:
  assumes "c \<le> 0" and "0 \<le> b"
  shows "py_int (float_mul (float_of_int c) (Dyadic b k)) \<le> 0"
proof -
  have "round53 c \<le> 0" using assms(1) by (rule round53_nonpos)
  then have "round53 c * b \<le> 0" using assms(2) by (simp add: mult_nonpos_nonneg)
  then have "round53 (round53 c * b) \<le> 0" by (rule round53_nonpos)
  then show ?thesis unfolding float_of_int_def float_mul.simps by (rule py_int_nonpos)
qed

text \<open>
  The CPU terms: below 128 CPUs the four products are evaluated one by one; from 128
  on only the first rule applies and its CPU term is at least 64, the cap.
\<close>

lemma small_counts:
  "list_all (\<lambda>c. py_int (float_mul (float_of_int c) float_0_5) = c div 2) [96..127]"
  "list_all (\<lambda>c. py_int (float_mul (float_of_int c) float_0_75) = 3 * c div 4) [32..95]"
  "list_all (\<lambda>c. py_int (float_mul (float_of_int c) float_0_8) = 4 * c div 5) [8..31]"
  "list_all (\<lambda>c. py_int (float_mul (float_of_int c) float_0_9) = 9 * c div 10) [0..7]"
  by code_simp+

lemma in_interval: "a \<le> c \<Longrightarrow> c \<le> b \<Longrightarrow> c \<in> set [a..b]"
  by simp

lemma cpu_half:
  assumes "96 \<le> c"
  shows "min (py_int (float_mul (float_of_int c) float_0_5)) (64::int) = min \<lfloor>0.5 * real_of_int c\<rfloor> 64"
proof (cases "c \<le> 127")
  case True
  with assms have "c \<in> set [96..127]" by (intro in_interval)
  with small_counts(1) have "py_int (float_mul (float_of_int c) float_0_5) = c div 2"
    by (simp only: list_all_iff)
  moreover have "\<lfloor>0.5 * real_of_int c\<rfloor> = c div 2"
    using floor_divide_of_int_eq[of c 2] by simp
  ultimately show ?thesis by simp
next
  case False
  then have big: "128 \<le> c" by simp
  have "64 \<le> py_int (float_mul (float_of_int c) float_0_5)" using big by (rule half_of_large)
  moreover have "\<lfloor>0.5 * real_of_int c\<rfloor> = c div 2"
    using floor_divide_of_int_eq[of c 2] by simp
  moreover have "64 \<le> c div 2" using big by simp
  ultimately show ?thesis by simp
qed

lemma cpu_three_quarters:
  assumes "32 \<le> c" "c < 96"
  shows "py_int (float_mul (float_of_int c) float_0_75) = \<lfloor>0.75 * real_of_int c\<rfloor>"
proof -
  from assms have "c \<in> set [32..95]" by (intro in_interval) simp_all
  with small_counts(2) have "py_int (float_mul (float_of_int c) float_0_75) = 3 * c div 4"
    by (simp only: list_all_iff)
  moreover have "\<lfloor>0.75 * real_of_int c\<rfloor> = 3 * c div 4"
    using floor_divide_of_int_eq[of "3 * c" 4] by simp
  ultimately show ?thesis by simp
qed

lemma cpu_four_fifths:
  assumes "8 \<le> c" "c < 32"
  shows "py_int (float_mul (float_of_int c) float_0_8) = \<lfloor>0.8 * real_of_int c\<rfloor>"
proof -
  from assms have "c \<in> set [8..31]" by (intro in_interval) simp_all
  with small_counts(3) have "py_int (float_mul (float_of_int c) float_0_8) = 4 * c div 5"
    by (simp only: list_all_iff)
  moreover have "\<lfloor>0.8 * real_of_int c\<rfloor> = 4 * c div 5"
    using floor_divide_of_int_eq[of "4 * c" 5] by simp
  ultimately show ?thesis by simp
qed

lemma cpu_nine_tenths:
  assumes "c < 8"
  shows "max 2 (py_int (float_mul (float_of_int c) float_0_9)) = max 2 \<lfloor>0.9 * real_of_int c\<rfloor>"
proof (cases "0 \<le> c")
  case True
  with assms have "c \<in> set [0..7]" by (intro in_interval) simp_all
  with small_counts(4) have "py_int (float_mul (float_of_int c) float_0_9) = 9 * c div 10"
    by (simp only: list_all_iff)
  moreover have "\<lfloor>0.9 * real_of_int c\<rfloor> = 9 * c div 10"
    using floor_divide_of_int_eq[of "9 * c" 10] by simp
  ultimately show ?thesis by simp
next
  case False
  then have neg: "c \<le> 0" by simp
  have "py_int (float_mul (float_of_int c) float_0_9) \<le> 0"
    unfolding float_0_9_def using neg by (rule product_of_negative) simp
  moreover have "\<lfloor>0.9 * real_of_int c\<rfloor> \<le> 0"
    using neg by (simp add: floor_le_iff mult_nonneg_nonpos)
  ultimately show ?thesis by simp
qed

text \<open>
  Claim C7, amended. Called without a worker count, \<^verbatim>\<open>calculate_optimal_workers\<close>
  returns 16 when the psutil probe raises or gives no CPU count. Otherwise, with \<open>C\<close>
  logical CPUs and a memory total of \<open>T\<close> bytes, the CPU terms are the floors the
  specification writes, \<open>\<lfloor>0.5C\<rfloor>\<close>, \<open>\<lfloor>0.75C\<rfloor>\<close>, \<open>\<lfloor>0.8C\<rfloor>\<close> and
  \<open>\<lfloor>0.9C\<rfloor>\<close>, and the memory cap is the truncated double-precision product of
  \<open>T / 2^30\<close> with the double nearest to 0.7 (for \<open>C \<ge> 96\<close>) or 0.6 (otherwise),
  each operation rounded to nearest.
\<close>

theorem initial_worker_sizing:
  "calculate_optimal_workers None None None = 16 \<and>
   calculate_optimal_workers None None (Some \<lparr>cpu_count = None, memory_total = T\<rparr>) = 16 \<and>
   calculate_optimal_workers None None (Some \<lparr>cpu_count = Some C, memory_total = T\<rparr>) =
     (if C \<ge> 96 then
        min (min \<lfloor>0.5 * real_of_int C\<rfloor> (py_int (float_mul (int_over_gib (int T)) float_0_7))) 64
      else if 32 \<le> C then
        min (min 24 \<lfloor>0.75 * real_of_int C\<rfloor>) (py_int (float_mul (int_over_gib (int T)) float_0_6))
      else if 8 \<le> C then
        min (max 4 \<lfloor>0.8 * real_of_int C\<rfloor>) (py_int (float_mul (int_over_gib (int T)) float_0_6))
      else
        min (max 2 \<lfloor>0.9 * real_of_int C\<rfloor>) (py_int (float_mul (int_over_gib (int T)) float_0_6)))"
proof -
  let ?M = "int_over_gib (int T)"
  have sized: "calculate_optimal_workers None None (Some \<lparr>cpu_count = Some C, memory_total = T\<rparr>)
        = size_workers C ?M"
    by (simp add: calculate_optimal_workers_def memory_gb_def)
  have t1: "96 \<le> C \<Longrightarrow> size_workers C ?M
      = min (min \<lfloor>0.5 * real_of_int C\<rfloor> (py_int (float_mul ?M float_0_7))) 64"
  proof -
    assume c: "96 \<le> C"
    have "min (min (py_int (float_mul (float_of_int C) float_0_5)) (py_int (float_mul ?M float_0_7))) 64
        = min (min (py_int (float_mul (float_of_int C) float_0_5)) 64) (py_int (float_mul ?M float_0_7))"
      by (simp add: min.commute min.left_commute)
    also have "\<dots> = min (min \<lfloor>0.5 * real_of_int C\<rfloor> 64) (py_int (float_mul ?M float_0_7))"
      by (simp only: cpu_half[OF c])
    also have "\<dots> = min (min \<lfloor>0.5 * real_of_int C\<rfloor> (py_int (float_mul ?M float_0_7))) 64"
      by (simp add: min.commute min.left_commute)
    finally show ?thesis using c by (simp add: size_workers_def Let_def)
  qed
  have t2: "32 \<le> C \<Longrightarrow> C < 96 \<Longrightarrow> size_workers C ?M
      = min (min 24 \<lfloor>0.75 * real_of_int C\<rfloor>) (py_int (float_mul ?M float_0_6))"
    by (simp add: size_workers_def Let_def cpu_three_quarters)
  have t3: "8 \<le> C \<Longrightarrow> C < 32 \<Longrightarrow> size_workers C ?M
      = min (max 4 \<lfloor>0.8 * real_of_int C\<rfloor>) (py_int (float_mul ?M float_0_6))"
    by (simp add: size_workers_def Let_def cpu_four_fifths)
  have t4: "C < 8 \<Longrightarrow> size_workers C ?M
      = min (max 2 \<lfloor>0.9 * real_of_int C\<rfloor>) (py_int (float_mul ?M float_0_6))"
    by (simp add: size_workers_def Let_def cpu_nine_tenths)
  have "size_workers C ?M =
     (if C \<ge> 96 then
        min (min \<lfloor>0.5 * real_of_int C\<rfloor> (py_int (float_mul ?M float_0_7))) 64
      else if 32 \<le> C then
        min (min 24 \<lfloor>0.75 * real_of_int C\<rfloor>) (py_int (float_mul ?M float_0_6))
      else if 8 \<le> C then
        min (max 4 \<lfloor>0.8 * real_of_int C\<rfloor>) (py_int (float_mul ?M float_0_6))
      else
        min (max 2 \<lfloor>0.9 * real_of_int C\<rfloor>) (py_int (float_mul ?M float_0_6)))"
    using t1 t2 t3 t4 by (cases "96 \<le> C"; cases "32 \<le> C"; cases "8 \<le> C") simp_all
  then show ?thesis
    unfolding sized by (simp add: calculate_optimal_workers_def)
qed

lemma ninety_gib: "py_int (float_mul (int_over_gib 96636764160) float_0_7) = 62"
  by code_simp

text \<open>
  Claim C7 as the specification words it fails: on 128 logical CPUs and 90 GiB of
  memory the code computes \<^verbatim>\<open>int(90.0 * 0.7)\<close>, and the double product is
  \<open>62.99999999999999\<close>, so it starts 62 workers; the specification's
  \<open>min(\<lfloor>0.5C\<rfloor>, \<lfloor>0.7M\<rfloor>, 64)\<close> is 63.
\<close>

theorem initial_worker_sizing_counterexample:
  "calculate_optimal_workers None None
     (Some \<lparr>cpu_count = Some 128, memory_total = 96636764160\<rparr>) = 62 \<and>
   spec_initial_workers 128 (real 96636764160 / 2 ^ 30) = 63"
proof -
  have "half": "py_int (float_mul (float_of_int 128) float_0_5) = 64"
    by code_simp
  have "calculate_optimal_workers None None
     (Some \<lparr>cpu_count = Some 128, memory_total = 96636764160\<rparr>) = 62"
    by (simp add: calculate_optimal_workers_def memory_gb_def size_workers_def Let_def
        ninety_gib "half")
  moreover have "spec_initial_workers 128 (real 96636764160 / 2 ^ 30) = 63"
    by (simp add: spec_initial_workers_def)
  ultimately show ?thesis by simp
qed

section \<open>The load-reduction rules\<close>

lemma adjust_workers_critical:
  "load_factor u > CRITICAL_LOAD_FACTOR \<Longrightarrow>
   adjust_workers w u = max 8 (w - min WORKER_EMERGENCY_REDUCTION (w div 3))"
  by (simp add: adjust_workers_def Let_def)

lemma adjust_workers_high:
  "load_factor u > MAX_LOAD_FACTOR \<Longrightarrow> load_factor u \<le> CRITICAL_LOAD_FACTOR \<Longrightarrow>
   adjust_workers w u = max 8 (w - min (2 * WORKER_STEP_SIZE) (w div 5))"
  by (simp add: adjust_workers_def Let_def mult.commute)

lemma batch_after_critical:
  assumes "load_factor u > CRITICAL_LOAD_FACTOR"
  shows "current_batch_size (adjust_batch_size u (adjust_worker_count n (critical_batch_clamp u s))) = MIN_BATCH_SIZE"
proof -
  have lf: "\<not> load_factor u < 0.8" "load_factor u > MAX_LOAD_FACTOR"
    using assms by (simp_all add: wm_constants)
  have c: "current_batch_size (critical_batch_clamp u s) \<le> MIN_BATCH_SIZE"
    using assms by (simp add: critical_batch_clamp_def)
  have w: "current_batch_size (adjust_worker_count n t) = current_batch_size t" for t
    by (simp add: adjust_worker_count_def)
  show ?thesis
    using c lf by (simp add: adjust_batch_size_def Let_def w wm_constants)
qed

text \<open>
  Claim C3, as the code has it. When the psutil probe of \<^verbatim>\<open>calculate_optimal_workers\<close>
  succeeds, the scaling step turns a worker count \<open>w\<close> into
  \<open>max(8, w - min(WORKER_EMERGENCY_REDUCTION, w div 3))\<close> and the batch size into
  \<open>MIN_BATCH_SIZE\<close> when the load factor exceeds \<open>CRITICAL_LOAD_FACTOR\<close>, and
  \<open>w\<close> into \<open>max(8, w - min(2 * WORKER_STEP_SIZE, w div 5))\<close> when the load factor
  lies above \<open>MAX_LOAD_FACTOR\<close> and at most at \<open>CRITICAL_LOAD_FACTOR\<close>. The
  reduction is the smaller of the two amounts, not the larger.
\<close>

theorem load_reduction_rules:
  assumes "system_probe e (iteration s) = Some probe"
    and "u = get_system_utilization e (iteration s)"
  shows "(load_factor u > CRITICAL_LOAD_FACTOR \<longrightarrow>
            current_max_workers (adapt e s)
              = max 8 (current_max_workers s - min WORKER_EMERGENCY_REDUCTION (current_max_workers s div 3))
            \<and> current_batch_size (adapt e s) = MIN_BATCH_SIZE)
       \<and> (MAX_LOAD_FACTOR < load_factor u \<and> load_factor u \<le> CRITICAL_LOAD_FACTOR \<longrightarrow>
            current_max_workers (adapt e s)
              = max 8 (current_max_workers s - min (2 * WORKER_STEP_SIZE) (current_max_workers s div 5)))"
proof -
  have cw: "current_max_workers (critical_batch_clamp v t) = current_max_workers t" for v t
    by (simp add: critical_batch_clamp_def)
  have aw: "current_max_workers (adjust_batch_size v (adjust_worker_count n t)) = n" for v n t
    by (simp add: adjust_batch_size_def adjust_worker_count_def Let_def)
  have workers: "current_max_workers (adapt e s) = adjust_workers (current_max_workers s) u"
    using assms by (simp add: adapt_def Let_def aw cw calculate_optimal_workers_def)
  have batch: "load_factor u > CRITICAL_LOAD_FACTOR \<Longrightarrow> current_batch_size (adapt e s) = MIN_BATCH_SIZE"
    using assms(2) by (simp add: adapt_def Let_def batch_after_critical)
  show ?thesis
    using workers batch by (simp add: adjust_workers_critical adjust_workers_high)
qed

lemma thirty_workers:
  "current_max_workers (initial_sched e (default_params\<lparr>max_workers := Some 30\<rparr>) st) = 30"
  "iteration (initial_sched e (default_params\<lparr>max_workers := Some 30\<rparr>) st) = 0"
  by (simp_all add: initial_sched_def default_params_def)

theorem load_reduction_rules_witness:
  "current_max_workers (adapt (loaded_env critical_load)
      (initial_sched (loaded_env critical_load) (default_params\<lparr>max_workers := Some 30\<rparr>) (fresh_store 3))) = 20 \<and>
   current_batch_size (adapt (loaded_env critical_load)
      (initial_sched (loaded_env critical_load) (default_params\<lparr>max_workers := Some 30\<rparr>) (fresh_store 3))) = 20 \<and>
   current_max_workers (adapt (loaded_env high_load)
      (initial_sched (loaded_env high_load) (default_params\<lparr>max_workers := Some 30\<rparr>) (fresh_store 3))) = 24"
proof -
  let ?p = "default_params\<lparr>max_workers := Some 30\<rparr>"
  have a: "system_probe (loaded_env u) n = Some busy_machine"
          "get_system_utilization (loaded_env u) n = u" for u n
    by (simp_all add: loaded_env_def)
  have c: "load_factor critical_load > CRITICAL_LOAD_FACTOR"
    by (simp add: critical_load_def wm_constants)
  have h: "MAX_LOAD_FACTOR < load_factor high_load \<and> load_factor high_load \<le> CRITICAL_LOAD_FACTOR"
    by (simp add: high_load_def wm_constants)
  from load_reduction_rules[of "loaded_env critical_load"
      "initial_sched (loaded_env critical_load) ?p (fresh_store 3)" busy_machine critical_load, OF a(1) a(2)[symmetric]]
    load_reduction_rules[of "loaded_env high_load"
      "initial_sched (loaded_env high_load) ?p (fresh_store 3)" busy_machine high_load, OF a(1) a(2)[symmetric]]
    c h
  show ?thesis by (simp add: thirty_workers wm_constants)
qed

text \<open>
  Claim C3 as the specification words it fails: from 30 workers the code goes to 20
  under a load factor of 2.5 and to 24 under a load factor of 1.8, the specification's
  rules to 10 in both cases.
\<close>

theorem load_reduction_rules_counterexample:
  "calculate_optimal_workers (Some 30) (Some critical_load) (Some busy_machine) = 20 \<and>
   spec_critical_workers 30 = 10 \<and>
   calculate_optimal_workers (Some 30) (Some high_load) (Some busy_machine) = 24 \<and>
   spec_high_load_workers 30 = 10"
  by (simp add: calculate_optimal_workers_def adjust_workers_def critical_load_def
      high_load_def spec_critical_workers_def spec_high_load_workers_def MIN_WORKERS_def
      wm_constants)

section \<open>The floor of the batch size\<close>

lemma last_loop_states: "last (loop_states e p s) = main_loop e p s"
proof (induction e p s rule: main_loop.induct)
  case (1 e p s)
  show ?case
  proof (cases "loop_guard p s")
    case False
    then show ?thesis by (simp add: loop_states.simps[of e p s] main_loop.simps[of e p s])
  next
    case True
    show ?thesis
    proof (cases "loop_body e p s")
      case (Break s')
      with True show ?thesis by (simp add: loop_states.simps[of e p s] main_loop.simps[of e p s])
    next
      case (Continue s')
      have ne: "loop_states e p s' \<noteq> []" by (subst loop_states.simps) simp
      from 1[OF True Continue] True Continue ne show ?thesis
        by (simp add: loop_states.simps[of e p s] main_loop.simps[of e p s])
    qed
  qed
qed

lemma cbs_poll_stop [simp]: "current_batch_size (snd (poll_stop e p s)) = current_batch_size s"
  by (simp add: poll_stop_def)

lemma cbs_submit_batch [simp]:
  "current_batch_size (fst (submit_batch s futures xs)) = current_batch_size s"
  by (induction s futures xs rule: submit_batch.induct) (simp_all add: Let_def split: prod.splits)

lemma cbs_drain_future [simp]:
  "current_batch_size (drain_future e p f s) = current_batch_size s"
  by (simp add: drain_future_def poll_stop_def Let_def handle_result_def handle_timeout_def
      handle_exception_def emit_def split: prod.splits outcome.splits)

lemma cbs_fold_drain [simp]:
  "current_batch_size (fold (drain_future e p) fs s) = current_batch_size s"
  by (induction fs arbitrary: s) simp_all

lemma cbs_drain_batch [simp]:
  "current_batch_size (drain_batch e p futures s) = current_batch_size s"
  by (simp add: drain_batch_def)

lemma clamp_keeps_minimum:
  "MIN_BATCH_SIZE \<le> current_batch_size s \<Longrightarrow>
   MIN_BATCH_SIZE \<le> current_batch_size (critical_batch_clamp u s)"
  by (simp add: critical_batch_clamp_def)

lemma adjust_batch_keeps_minimum:
  "MIN_BATCH_SIZE \<le> current_batch_size s \<Longrightarrow>
   MIN_BATCH_SIZE \<le> current_batch_size (adjust_batch_size u s)"
  by (simp add: adjust_batch_size_def Let_def wm_constants)

lemma memory_check_keeps_minimum:
  "MIN_BATCH_SIZE \<le> current_batch_size s \<Longrightarrow>
   MIN_BATCH_SIZE \<le> current_batch_size (memory_check e s)"
  by (simp add: memory_check_def)

lemma cbs_adjust_worker_count [simp]:
  "current_batch_size (adjust_worker_count n s) = current_batch_size s"
  by (simp add: adjust_worker_count_def)

lemma adapt_keeps_minimum:
  "MIN_BATCH_SIZE \<le> current_batch_size s \<Longrightarrow>
   MIN_BATCH_SIZE \<le> current_batch_size (adapt e s)"
  by (simp add: adapt_def Let_def adjust_batch_keeps_minimum clamp_keeps_minimum)

lemma run_batch_keeps_minimum:
  assumes "MIN_BATCH_SIZE \<le> current_batch_size s"
    and "run_batch e p s = Continue s' \<or> run_batch e p s = Break s'"
  shows "MIN_BATCH_SIZE \<le> current_batch_size s'"
proof -
  let ?xs = "get_pending_files (db s) (fetch_limit p s)"
  let ?s1 = "s\<lparr>trace := trace s @ [Fetched ?xs]\<rparr>"
  obtain s2 futures where sb: "submit_batch ?s1 [] ?xs = (s2, futures)"
    by (cases "submit_batch ?s1 [] ?xs")
  have c2: "current_batch_size s2 = current_batch_size s"
    using cbs_submit_batch[of ?s1 "[]" ?xs] sb by simp
  let ?s3 = "drain_batch e p futures s2"
  have c3: "MIN_BATCH_SIZE \<le> current_batch_size ?s3" using c2 assms(1) by simp
  from assms(2) sb have
    "s' = ?s1\<lparr>files_remaining := False\<rparr> \<or> s' = ?s3\<lparr>files_remaining := False\<rparr>
      \<or> s' = (memory_check e ?s3)\<lparr>iteration := Suc (iteration ?s3)\<rparr>"
    by (auto simp: run_batch_def Let_def split: if_splits)
  then show ?thesis
    using assms(1) c3 memory_check_keeps_minimum[OF c3, of e] by auto
qed

lemma loop_body_keeps_minimum:
  assumes "MIN_BATCH_SIZE \<le> current_batch_size s"
    and "loop_body e p s = Continue s' \<or> loop_body e p s = Break s'"
  shows "MIN_BATCH_SIZE \<le> current_batch_size s'"
proof -
  obtain b s1 where ps: "poll_stop e p s = (b, s1)" by (cases "poll_stop e p s")
  have c1: "MIN_BATCH_SIZE \<le> current_batch_size s1"
    using cbs_poll_stop[of e p s] ps assms(1) by simp
  show ?thesis
  proof (cases b)
    case True
    with assms(2) ps have "s' = s1\<lparr>files_remaining := False\<rparr>"
      by (simp add: loop_body_def)
    with c1 show ?thesis by simp
  next
    case False
    let ?t = "if enable_dynamic_scaling p \<and> scaling_due e (iteration s1) then adapt e s1 else s1"
    have ct: "MIN_BATCH_SIZE \<le> current_batch_size ?t"
      using c1 by (simp add: adapt_keeps_minimum)
    from False assms(2) ps have "run_batch e p ?t = Continue s' \<or> run_batch e p ?t = Break s'"
      by (simp add: loop_body_def)
    with ct show ?thesis by (rule run_batch_keeps_minimum)
  qed
qed

lemma loop_states_keep_minimum:
  "MIN_BATCH_SIZE \<le> current_batch_size s \<Longrightarrow> t \<in> set (loop_states e p s) \<Longrightarrow>
   MIN_BATCH_SIZE \<le> current_batch_size t"
proof (induction e p s rule: loop_states.induct)
  case (1 e p s)
  show ?case
  proof (cases "loop_guard p s")
    case False
    with 1(3) have "t = s" by (simp add: loop_states.simps[of e p s])
    with 1(2) show ?thesis by simp
  next
    case True
    show ?thesis
    proof (cases "loop_body e p s")
      case (Break s')
      with True 1(3) have "t = s \<or> t = s'" by (simp add: loop_states.simps[of e p s])
      moreover have "MIN_BATCH_SIZE \<le> current_batch_size s'"
        using loop_body_keeps_minimum[OF 1(2)] Break by blast
      ultimately show ?thesis using 1(2) by auto
    next
      case (Continue s')
      have m: "MIN_BATCH_SIZE \<le> current_batch_size s'"
        using loop_body_keeps_minimum[OF 1(2)] Continue by blast
      from True Continue 1(3) have "t = s \<or> t \<in> set (loop_states e p s')"
        by (simp add: loop_states.simps[of e p s])
      then show ?thesis using 1(2) 1(1)[OF True Continue m] by auto
    qed
  qed
qed

text \<open>
  Claim C10. In a run started with a batch size of at least \<open>MIN_BATCH_SIZE\<close>, the
  batch size is at least \<open>MIN_BATCH_SIZE\<close> at the head of every pass and at the
  end of the run, and each of the sites that change it keeps it there: the clamp under
  critical load, the adaptive step, the whole scaling step and the halving under memory
  pressure after a batch.
\<close>

theorem batch_size_floor:
  assumes "MIN_BATCH_SIZE \<le> batch_size p"
  shows "(\<forall>s \<in> set (loop_states e p (initial_sched e p st)).
            MIN_BATCH_SIZE \<le> current_batch_size s
          \<and> MIN_BATCH_SIZE \<le> current_batch_size (critical_batch_clamp u s)
          \<and> MIN_BATCH_SIZE \<le> current_batch_size (adjust_batch_size u s)
          \<and> MIN_BATCH_SIZE \<le> current_batch_size (adapt e s)
          \<and> MIN_BATCH_SIZE \<le> current_batch_size (memory_check e s))
       \<and> MIN_BATCH_SIZE \<le> current_batch_size (snd (process_files_parallel e p st))"
proof -
  have i: "MIN_BATCH_SIZE \<le> current_batch_size (initial_sched e p st)"
    using assms by (simp add: initial_sched_def)
  have all: "MIN_BATCH_SIZE \<le> current_batch_size s"
    if "s \<in> set (loop_states e p (initial_sched e p st))" for s
    using i that by (rule loop_states_keep_minimum)
  have ne: "loop_states e p (initial_sched e p st) \<noteq> []" by (subst loop_states.simps) simp
  have "main_loop e p (initial_sched e p st) \<in> set (loop_states e p (initial_sched e p st))"
    using last_in_set[OF ne] by (simp add: last_loop_states)
  then have "MIN_BATCH_SIZE \<le> current_batch_size (main_loop e p (initial_sched e p st))"
    by (rule all)
  then have fin: "MIN_BATCH_SIZE \<le> current_batch_size (snd (process_files_parallel e p st))"
    by (simp add: process_files_parallel_def Let_def)
  show ?thesis
    using all fin
    by (auto simp: clamp_keeps_minimum adjust_batch_keeps_minimum adapt_keeps_minimum
        memory_check_keeps_minimum)
qed

lemma default_batch_size: "MIN_BATCH_SIZE \<le> batch_size default_params"
  by (simp add: default_params_def MIN_BATCH_SIZE_def)

theorem batch_size_floor_witness:
  "MIN_BATCH_SIZE \<le> batch_size default_params \<and>
   MIN_BATCH_SIZE \<le> current_batch_size
      (snd (process_files_parallel (loaded_env critical_load) default_params (fresh_store 3)))"
  using batch_size_floor[OF default_batch_size, of "loaded_env critical_load" "fresh_store 3" critical_load] default_batch_size
  by blast

section \<open>Graceful stop\<close>

lemma drained_append [simp]: "drained (xs @ ys) = drained xs @ drained ys"
  by (induction xs rule: drained.induct) simp_all

lemma stop_respected_unseen:
  "Polled True \<notin> set xs \<Longrightarrow> stop_respected (xs @ ys) = stop_respected ys"
  by (induction xs rule: stop_respected.induct) auto

lemma stop_respected_quiet:
  "list_all (\<lambda>a. \<not> is_admission a) ys \<Longrightarrow> stop_respected ys"
  by (induction ys rule: stop_respected.induct) auto

lemma trace_poll_stop:
  "trace (snd (poll_stop e p s)) =
     trace s @ (if stop_event p then [Polled (stop_is_set e (polls s))] else [])"
  by (simp add: poll_stop_def)

lemma fst_poll_stop:
  "fst (poll_stop e p s) = (stop_event p \<and> stop_is_set e (polls s))"
  by (simp add: poll_stop_def)

lemma trace_adapt [simp]: "trace (adapt e s) = trace s"
  by (simp add: adapt_def Let_def adjust_batch_size_def adjust_worker_count_def
      critical_batch_clamp_def)

lemma trace_memory_check [simp]: "trace (memory_check e s) = trace s"
  by (simp add: memory_check_def)

lemma trace_submit_batch:
  "\<exists>cs. trace (fst (submit_batch s futures xs)) = trace s @ cs \<and> Polled True \<notin> set cs"
proof (induction s futures xs rule: submit_batch.induct)
  case (1 s futures)
  then show ?case by simp
next
  case (2 s futures fid path rest)
  obtain ok db' where m: "mark_file_processing (db s) fid = (ok, db')"
    by (cases "mark_file_processing (db s) fid")
  let ?s' = "s\<lparr>db := db', trace := trace s @ [Claimed fid ok]\<rparr>"
  let ?fs = "if ok then futures @ [(fid, path)] else futures"
  have step: "submit_batch s futures ((fid, path) # rest) = submit_batch ?s' ?fs rest"
    using m by simp
  have "\<exists>cs. trace (fst (submit_batch ?s' ?fs rest)) = trace ?s' @ cs \<and> Polled True \<notin> set cs"
  proof (cases ok)
    case True
    with 2(1)[OF m[symmetric] refl] show ?thesis by simp
  next
    case False
    with 2(2)[OF m[symmetric] refl] show ?thesis by simp
  qed
  then obtain cs where "trace (fst (submit_batch ?s' ?fs rest)) = trace ?s' @ cs"
    and "Polled True \<notin> set cs" by blast
  then have "trace (fst (submit_batch ?s' ?fs rest)) = trace s @ (Claimed fid ok # cs)
             \<and> Polled True \<notin> set (Claimed fid ok # cs)" by simp
  then show ?case unfolding step by blast
qed

lemma trace_handlers [simp]:
  "trace (handle_result p r s) = trace s"
  "trace (handle_timeout fid s) = trace s"
  "trace (handle_exception p msg s) = trace s"
  by (simp_all add: handle_result_def handle_timeout_def handle_exception_def emit_def Let_def)

lemma stop_handlers:
  "stop_requested s \<Longrightarrow> stop_requested (handle_result p r s)"
  "stop_requested (handle_timeout fid s) = stop_requested s"
  "stop_requested (handle_exception p msg s) = stop_requested s"
  by (simp_all add: handle_result_def handle_timeout_def handle_exception_def emit_def Let_def)

lemma trace_drain_future:
  "trace (drain_future e p f s) =
     trace s @ (if stop_event p then [Polled (stop_is_set e (polls s))] else []) @ [Drained (fst f)]"
  by (simp add: drain_future_def poll_stop_def Let_def split: outcome.splits)

lemma stop_drain_future:
  "stop_requested s \<or> (stop_event p \<and> stop_is_set e (polls s)) \<Longrightarrow>
   stop_requested (drain_future e p f s)"
  by (auto simp: drain_future_def poll_stop_def Let_def stop_handlers split: outcome.splits)

lemma trace_fold_drain:
  "\<exists>ds. trace (fold (drain_future e p) fs s) = trace s @ ds
        \<and> list_all (\<lambda>a. \<not> is_admission a) ds
        \<and> drained ds = map fst fs
        \<and> (stop_requested s \<or> Polled True \<in> set ds
             \<longrightarrow> stop_requested (fold (drain_future e p) fs s))"
proof (induction fs arbitrary: s)
  case Nil
  then show ?case by simp
next
  case (Cons f fs)
  let ?s' = "drain_future e p f s"
  let ?d = "(if stop_event p then [Polled (stop_is_set e (polls s))] else []) @ [Drained (fst f)]"
  from Cons[of ?s'] obtain ds where
    t: "trace (fold (drain_future e p) fs ?s') = trace ?s' @ ds"
    and q: "list_all (\<lambda>a. \<not> is_admission a) ds"
    and d: "drained ds = map fst fs"
    and st: "stop_requested ?s' \<or> Polled True \<in> set ds
             \<longrightarrow> stop_requested (fold (drain_future e p) fs ?s')"
    by blast
  have 1: "trace (fold (drain_future e p) (f # fs) s) = trace s @ (?d @ ds)"
    using t by (simp add: trace_drain_future)
  have 2: "list_all (\<lambda>a. \<not> is_admission a) (?d @ ds)" using q by simp
  have 3: "drained (?d @ ds) = map fst (f # fs)" using d by simp
  have 4: "stop_requested s \<or> Polled True \<in> set (?d @ ds)
             \<longrightarrow> stop_requested (fold (drain_future e p) (f # fs) s)"
    using st stop_drain_future[of s p e f] by (auto split: if_splits)
  from 1 2 3 4 show ?case by blast
qed

lemma trace_drain_batch:
  "\<exists>ds. trace (drain_batch e p futures s) = trace s @ ds
        \<and> list_all (\<lambda>a. \<not> is_admission a) ds
        \<and> drained ds = map fst (as_completed e (iteration s) futures)
        \<and> (Polled True \<in> set ds \<longrightarrow> stop_requested (drain_batch e p futures s))"
  using trace_fold_drain[of e p "as_completed e (iteration s) futures"
      "s\<lparr>stop_requested := False, consecutive_errors := 0\<rparr>"]
  by (auto simp: drain_batch_def)

lemma run_batch_stop:
  assumes "Polled True \<notin> set (trace s)"
  shows "case run_batch e p s of
           Break s' \<Rightarrow> stop_respected (trace s')
         | Continue s' \<Rightarrow> Polled True \<notin> set (trace s')"
proof -
  let ?xs = "get_pending_files (db s) (fetch_limit p s)"
  let ?s1 = "s\<lparr>trace := trace s @ [Fetched ?xs]\<rparr>"
  have base: "stop_respected (trace s @ [Fetched []])"
    using stop_respected_unseen[OF assms, of "[Fetched []]"] by simp
  show ?thesis
  proof (cases "?xs = []")
    case True
    then show ?thesis using base by (simp add: run_batch_def)
  next
    case False
    obtain s2 futures where sb: "submit_batch ?s1 [] ?xs = (s2, futures)"
      by (cases "submit_batch ?s1 [] ?xs")
    from trace_submit_batch[of ?s1 "[]" ?xs] sb obtain cs where
      t2: "trace s2 = trace s @ [Fetched ?xs] @ cs" and ncs: "Polled True \<notin> set cs"
      by auto
    let ?s3 = "drain_batch e p futures s2"
    from trace_drain_batch[of e p futures s2] obtain ds where
      t3: "trace ?s3 = trace s2 @ ds" and q: "list_all (\<lambda>a. \<not> is_admission a) ds"
      and st: "Polled True \<in> set ds \<longrightarrow> stop_requested ?s3"
      by blast
    have pre: "Polled True \<notin> set (trace s2)" using assms ncs t2 by simp
    show ?thesis
    proof (cases "stop_requested ?s3")
      case True
      have "stop_respected (trace ?s3)"
        unfolding t3 using stop_respected_unseen[OF pre] stop_respected_quiet[OF q] by simp
      with True False sb show ?thesis by (simp add: run_batch_def Let_def)
    next
      case nostop: False
      with st have "Polled True \<notin> set ds" by blast
      with pre t3 have "Polled True \<notin> set (trace ?s3)" by simp
      with nostop False sb show ?thesis by (simp add: run_batch_def Let_def)
    qed
  qed
qed

lemma loop_body_stop:
  assumes "Polled True \<notin> set (trace s)"
  shows "case loop_body e p s of
           Break s' \<Rightarrow> stop_respected (trace s')
         | Continue s' \<Rightarrow> Polled True \<notin> set (trace s')"
proof (cases "fst (poll_stop e p s)")
  case True
  then have b: "stop_event p" "stop_is_set e (polls s)" by (simp_all add: fst_poll_stop)
  have "stop_respected (trace s @ [Polled True])"
    using stop_respected_unseen[OF assms, of "[Polled True]"] by simp
  with True b show ?thesis
    by (simp add: loop_body_def split_beta trace_poll_stop)
next
  case False
  let ?s1 = "snd (poll_stop e p s)"
  let ?t = "if enable_dynamic_scaling p \<and> scaling_due e (iteration ?s1) then adapt e ?s1 else ?s1"
  have "Polled True \<notin> set (trace ?s1)"
    using assms False by (auto simp: trace_poll_stop fst_poll_stop)
  then have "Polled True \<notin> set (trace ?t)" by simp
  from run_batch_stop[OF this, of e p] False show ?thesis
    by (simp add: loop_body_def split_beta)
qed

lemma main_loop_stop:
  "Polled True \<notin> set (trace s) \<Longrightarrow> stop_respected (trace (main_loop e p s))"
proof (induction e p s rule: main_loop.induct)
  case (1 e p s)
  have base: "stop_respected (trace s)"
    using stop_respected_unseen[OF 1(2), of "[]"] by simp
  show ?case
  proof (cases "loop_guard p s")
    case False
    then show ?thesis using base by (simp add: main_loop.simps[of e p s])
  next
    case True
    show ?thesis
    proof (cases "loop_body e p s")
      case (Break s')
      with loop_body_stop[OF 1(2), of e p] True show ?thesis
        by (simp add: main_loop.simps[of e p s])
    next
      case (Continue s')
      with loop_body_stop[OF 1(2), of e p] have "Polled True \<notin> set (trace s')" by simp
      from 1(1)[OF True Continue this] True Continue show ?thesis
        by (simp add: main_loop.simps[of e p s])
    qed
  qed
qed

lemma polled_fetches_none:
  "\<forall>a \<in> set xs. \<not> is_fetch a \<Longrightarrow> polled_fetches xs"
  by (induction xs rule: polled_fetches.induct) auto

lemma polled_fetches_poll_first:
  "ys = [] \<or> \<not> is_fetch (hd ys) \<Longrightarrow> polled_fetches (Polled b # ys) = polled_fetches ys"
  by (cases ys; cases "hd ys") auto

lemma polled_fetches_append:
  "polled_fetches xs \<Longrightarrow> polled_fetches ys \<Longrightarrow> (ys = [] \<or> \<not> is_fetch (hd ys))
   \<Longrightarrow> polled_fetches (xs @ ys)"
  by (induction xs rule: polled_fetches.induct) (simp_all add: polled_fetches_poll_first)

lemma submit_claims_only:
  "\<exists>cs. trace (fst (submit_batch s futures xs)) = trace s @ cs \<and> (\<forall>a \<in> set cs. \<not> is_fetch a)"
proof (induction s futures xs rule: submit_batch.induct)
  case (1 s futures)
  then show ?case by simp
next
  case (2 s futures fid path rest)
  obtain ok db' where m: "mark_file_processing (db s) fid = (ok, db')"
    by (cases "mark_file_processing (db s) fid")
  let ?s' = "s\<lparr>db := db', trace := trace s @ [Claimed fid ok]\<rparr>"
  let ?fs = "if ok then futures @ [(fid, path)] else futures"
  have step: "submit_batch s futures ((fid, path) # rest) = submit_batch ?s' ?fs rest"
    using m by simp
  have "\<exists>cs. trace (fst (submit_batch ?s' ?fs rest)) = trace ?s' @ cs \<and> (\<forall>a \<in> set cs. \<not> is_fetch a)"
  proof (cases ok)
    case True
    with 2(1)[OF m[symmetric] refl] show ?thesis by simp
  next
    case False
    with 2(2)[OF m[symmetric] refl] show ?thesis by simp
  qed
  then obtain cs where "trace (fst (submit_batch ?s' ?fs rest)) = trace ?s' @ cs"
    and "\<forall>a \<in> set cs. \<not> is_fetch a" by blast
  then have "trace (fst (submit_batch ?s' ?fs rest)) = trace s @ (Claimed fid ok # cs)
             \<and> (\<forall>a \<in> set (Claimed fid ok # cs). \<not> is_fetch a)" by simp
  then show ?case unfolding step by blast
qed

lemma admission_fetch: "\<not> is_admission a \<Longrightarrow> \<not> is_fetch a"
  by (cases a) simp_all

lemma run_batch_chunk:
  "\<exists>zs. trace (case run_batch e p s of Break s' \<Rightarrow> s' | Continue s' \<Rightarrow> s') = trace s @ zs
        \<and> (zs = [] \<or> (\<exists>xs ws. zs = Fetched xs # ws \<and> (\<forall>a \<in> set ws. \<not> is_fetch a)))"
proof -
  let ?xs = "get_pending_files (db s) (fetch_limit p s)"
  let ?s1 = "s\<lparr>trace := trace s @ [Fetched ?xs]\<rparr>"
  show ?thesis
  proof (cases "?xs = []")
    case True
    then show ?thesis by (simp add: run_batch_def)
  next
    case False
    obtain s2 futures where sb: "submit_batch ?s1 [] ?xs = (s2, futures)"
      by (cases "submit_batch ?s1 [] ?xs")
    from submit_claims_only[of ?s1 "[]" ?xs] sb obtain cs where
      t2: "trace s2 = trace s @ [Fetched ?xs] @ cs" and ncs: "\<forall>a \<in> set cs. \<not> is_fetch a"
      by auto
    let ?s3 = "drain_batch e p futures s2"
    from trace_drain_batch[of e p futures s2] obtain ds where
      t3: "trace ?s3 = trace s2 @ ds" and q: "list_all (\<lambda>a. \<not> is_admission a) ds"
      by blast
    have nds: "\<forall>a \<in> set ds. \<not> is_fetch a"
      using q by (auto simp: list_all_iff admission_fetch)
    have "trace (case run_batch e p s of Break s' \<Rightarrow> s' | Continue s' \<Rightarrow> s')
          = trace s @ (Fetched ?xs # (cs @ ds))"
      using False sb t2 t3 by (simp add: run_batch_def Let_def)
    moreover have "\<forall>a \<in> set (cs @ ds). \<not> is_fetch a" using ncs nds by auto
    ultimately show ?thesis by blast
  qed
qed

lemma loop_body_polled:
  assumes "stop_event p" and "polled_fetches (trace s)"
  shows "polled_fetches (trace (case loop_body e p s of Break s' \<Rightarrow> s' | Continue s' \<Rightarrow> s'))"
proof (cases "stop_is_set e (polls s)")
  case True
  then have "trace (case loop_body e p s of Break s' \<Rightarrow> s' | Continue s' \<Rightarrow> s')
             = trace s @ [Polled True]"
    using assms(1) by (simp add: loop_body_def poll_stop_def)
  then show ?thesis using assms(2) by (simp add: polled_fetches_append)
next
  case False
  let ?s1 = "snd (poll_stop e p s)"
  let ?t = "if enable_dynamic_scaling p \<and> scaling_due e (iteration ?s1) then adapt e ?s1 else ?s1"
  have lb: "loop_body e p s = run_batch e p ?t"
    using False by (simp add: loop_body_def poll_stop_def)
  have tt: "trace ?t = trace s @ [Polled False]"
    using False assms(1) by (simp add: poll_stop_def)
  from run_batch_chunk[of e p ?t] obtain zs where
    z: "trace (case run_batch e p ?t of Break s' \<Rightarrow> s' | Continue s' \<Rightarrow> s') = trace ?t @ zs"
    and zz: "zs = [] \<or> (\<exists>xs ws. zs = Fetched xs # ws \<and> (\<forall>a \<in> set ws. \<not> is_fetch a))"
    by blast
  have "polled_fetches (Polled False # zs)"
    using zz by (auto simp: polled_fetches_none)
  then have "polled_fetches (trace s @ (Polled False # zs))"
    using assms(2) by (simp add: polled_fetches_append)
  then show ?thesis unfolding lb z tt by simp
qed

lemma main_loop_polled:
  "stop_event p \<Longrightarrow> polled_fetches (trace s) \<Longrightarrow> polled_fetches (trace (main_loop e p s))"
proof (induction e p s rule: main_loop.induct)
  case (1 e p s)
  show ?case
  proof (cases "loop_guard p s")
    case False
    then show ?thesis using 1(3) by (simp add: main_loop.simps[of e p s])
  next
    case True
    show ?thesis
    proof (cases "loop_body e p s")
      case (Break s')
      with loop_body_polled[OF 1(2) 1(3), of e] True show ?thesis
        by (simp add: main_loop.simps[of e p s])
    next
      case (Continue s')
      with loop_body_polled[OF 1(2) 1(3), of e] have "polled_fetches (trace s')" by simp
      from 1(1)[OF True Continue 1(2) this] True Continue show ?thesis
        by (simp add: main_loop.simps[of e p s])
    qed
  qed
qed

lemma run_polled:
  "stop_event p \<Longrightarrow> polled_fetches (trace (snd (process_files_parallel e p st)))"
  using main_loop_polled[of p "initial_sched e p st" e]
  by (simp add: process_files_parallel_def Let_def initial_sched_def)

text \<open>
  Claim C6. The scheduler learns of the stop signal at its polls, one at the head of
  each pass and one before each future it drains. Once a poll has found the event set,
  the run fetches no batch and claims no file any more. Every batch is fetched directly
  after a poll that found the event clear, so the claims made between the raising of
  the signal and the first poll that sees it are those of the one batch then in hand.
  And the drain of a batch visits every future it is handed, whatever the polls answer,
  so submitted work is left to finish.
\<close>

theorem graceful_stop:
  "stop_respected (trace (snd (process_files_parallel e p st))) \<and>
   (stop_event p \<longrightarrow> polled_fetches (trace (snd (process_files_parallel e p st)))) \<and>
   drained (trace (drain_batch e p futures s)) =
     drained (trace s) @ map fst (as_completed e (iteration s) futures)"
proof -
  have "Polled True \<notin> set (trace (initial_sched e p st))"
    by (simp add: initial_sched_def)
  then have "stop_respected (trace (main_loop e p (initial_sched e p st)))"
    by (rule main_loop_stop)
  then have a: "stop_respected (trace (snd (process_files_parallel e p st)))"
    by (simp add: process_files_parallel_def Let_def)
  from trace_drain_batch[of e p futures s] have
    b: "drained (trace (drain_batch e p futures s)) =
     drained (trace s) @ map fst (as_completed e (iteration s) futures)" by auto
  from a b run_polled[of p e st] show ?thesis by simp
qed

lemma stop_seen:
  "trace (snd (process_files_parallel stopping_env default_params (fresh_store 3))) =
     [Polled False, Fetched [(1, ''/data/f001''), (2, ''/data/f002''), (3, ''/data/f003'')],
      Claimed 1 True, Claimed 2 True, Claimed 3 True,
      Polled False, Drained 1, Polled True, Drained 2, Polled True, Drained 3]"
  by code_simp

theorem graceful_stop_witness:
  "stop_respected (trace (snd (process_files_parallel stopping_env default_params (fresh_store 3)))) \<and>
   polled_fetches (trace (snd (process_files_parallel stopping_env default_params (fresh_store 3)))) \<and>
   Polled True \<in> set (trace (snd (process_files_parallel stopping_env default_params (fresh_store 3)))) \<and>
   drained (trace (snd (process_files_parallel stopping_env default_params (fresh_store 3)))) = [1, 2, 3]"
proof -
  have seen: "Polled True \<in> set (trace (snd (process_files_parallel stopping_env default_params (fresh_store 3))))"
    and all: "drained (trace (snd (process_files_parallel stopping_env default_params (fresh_store 3)))) = [1, 2, 3]"
    unfolding stop_seen by simp_all
  have ev: "stop_event default_params" by (simp add: default_params_def)
  show ?thesis
    using graceful_stop[of stopping_env default_params "fresh_store 3" "[]"
        "initial_sched stopping_env default_params (fresh_store 3)"] seen all ev
    by blast
qed

section \<open>The consecutive-error breaker\<close>

text \<open>
  How a pass of the loop acts on the pending rows and on the counters, when file ids
  are distinct and no poll finds the stop event set: the batch is the first rows of
  the pending list, every one of them is claimed, and the counters after the drain are
  the fold of \<open>tally_step\<close> over the outcomes in completion order, started from a
  cleared stop request and a counter of zero.
\<close>

lemma get_pending_files_rows:
  "get_pending_files st limit = map row_key (take (nat limit) (pending_rows_of st))"
  by (simp add: get_pending_files_def pending_rows_of_def row_key_def)

lemma pending_claim_rows:
  "filter (\<lambda>r. fstatus r = Pending) (map (claim_row fid) xs)
     = filter (\<lambda>r. file_id r \<noteq> fid) (filter (\<lambda>r. fstatus r = Pending) xs)"
  by (induction xs) (auto simp: claim_row_def)

lemma pending_complete_rows:
  "filter (\<lambda>r. fstatus r = Pending) (map (complete_row fid) xs)
     = filter (\<lambda>r. fstatus r = Pending) xs"
  by (induction xs) (auto simp: complete_row_def)

lemma pending_fail_rows:
  "filter (\<lambda>r. fstatus r = Pending) (map (fail_row fid msg) xs)
     = filter (\<lambda>r. fstatus r = Pending) xs"
  by (induction xs) (auto simp: fail_row_def)

lemma ids_claim_rows: "map file_id (map (claim_row fid) xs) = map file_id xs"
  by (induction xs) (auto simp: claim_row_def)

lemma ids_complete_rows: "map file_id (map (complete_row fid) xs) = map file_id xs"
  by (induction xs) (auto simp: complete_row_def)

lemma ids_fail_rows: "map file_id (map (fail_row fid msg) xs) = map file_id xs"
  by (induction xs) (auto simp: fail_row_def)

lemma file_ids_ops [simp]:
  "file_ids (snd (mark_file_processing st fid)) = file_ids st"
  "file_ids (mark_file_completed st fid) = file_ids st"
  "file_ids (mark_file_error st fid msg) = file_ids st"
  "file_ids (store_file_results st fid ents) = file_ids st"
proof -
  show "file_ids (snd (mark_file_processing st fid)) = file_ids st"
    unfolding file_ids_def files_mark_processing by (rule ids_claim_rows)
  show "file_ids (mark_file_completed st fid) = file_ids st"
    unfolding file_ids_def files_mark_completed by (rule ids_complete_rows)
  show "file_ids (mark_file_error st fid msg) = file_ids st"
    unfolding file_ids_def files_mark_error by (rule ids_fail_rows)
  show "file_ids (store_file_results st fid ents) = file_ids st"
    by (simp add: file_ids_def store_file_results_def)
qed

lemma pending_rows_ops [simp]:
  "pending_rows_of (mark_file_completed st fid) = pending_rows_of st"
  "pending_rows_of (mark_file_error st fid msg) = pending_rows_of st"
  "pending_rows_of (store_file_results st fid ents) = pending_rows_of st"
proof -
  show "pending_rows_of (mark_file_completed st fid) = pending_rows_of st"
    unfolding pending_rows_of_def files_mark_completed by (rule pending_complete_rows)
  show "pending_rows_of (mark_file_error st fid msg) = pending_rows_of st"
    unfolding pending_rows_of_def files_mark_error by (rule pending_fail_rows)
  show "pending_rows_of (store_file_results st fid ents) = pending_rows_of st"
    by (simp add: pending_rows_of_def store_file_results_def)
qed

lemma claim_first_pending:
  assumes "distinct (file_ids st)" and "pending_rows_of st = y # rest"
  shows "fst (mark_file_processing st (file_id y))"
    and "pending_rows_of (snd (mark_file_processing st (file_id y))) = rest"
proof -
  have "distinct (map file_id (pending_rows_of st))"
    using assms(1) unfolding file_ids_def pending_rows_of_def by (rule distinct_map_filter)
  then have "file_id y \<notin> file_id ` set rest" using assms(2) by simp
  then have d: "\<forall>r \<in> set rest. file_id r \<noteq> file_id y" by (metis imageI)
  then have f: "filter (\<lambda>r. file_id r \<noteq> file_id y) rest = rest"
    by (simp add: filter_id_conv)
  have g: "filter (\<lambda>r. file_id r = file_id y) rest = []"
    using d by (simp add: filter_empty_conv)
  have "filter (\<lambda>r. file_id r = file_id y \<and> fstatus r = Pending) (files st)
        = filter (\<lambda>r. file_id r = file_id y) (pending_rows_of st)"
    by (simp add: pending_rows_of_def conj_commute)
  also have "\<dots> = [y]" using assms(2) g by simp
  finally show "fst (mark_file_processing st (file_id y))"
    by (simp add: mark_file_processing_def)
  have "pending_rows_of (snd (mark_file_processing st (file_id y)))
        = filter (\<lambda>r. file_id r \<noteq> file_id y) (pending_rows_of st)"
    unfolding pending_rows_of_def files_mark_processing by (rule pending_claim_rows)
  then show "pending_rows_of (snd (mark_file_processing st (file_id y))) = rest"
    using assms(2) f by simp
qed

lemma submit_fifo:
  assumes "distinct (file_ids (db s))" and "pending_rows_of (db s) = ys @ zs"
  shows "snd (submit_batch s futures (map row_key ys)) = futures @ map row_key ys
       \<and> pending_rows_of (db (fst (submit_batch s futures (map row_key ys)))) = zs
       \<and> file_ids (db (fst (submit_batch s futures (map row_key ys)))) = file_ids (db s)"
  using assms
proof (induction ys arbitrary: s futures)
  case Nil
  then show ?case by simp
next
  case (Cons y ys)
  let ?m = "mark_file_processing (db s) (file_id y)"
  let ?s' = "s\<lparr>db := snd ?m, trace := trace s @ [Claimed (file_id y) True]\<rparr>"
  have first: "pending_rows_of (db s) = y # (ys @ zs)" using Cons.prems(2) by simp
  note c = claim_first_pending[OF Cons.prems(1) first]
  have step: "submit_batch s futures (map row_key (y # ys))
              = submit_batch ?s' (futures @ [row_key y]) (map row_key ys)"
    using c(1) by (simp add: row_key_def split_beta)
  have d': "distinct (file_ids (db ?s'))" using Cons.prems(1) by simp
  have p': "pending_rows_of (db ?s') = ys @ zs" using c(2) by simp
  from Cons.IH[OF d' p', of "futures @ [row_key y]"] show ?case
    unfolding step by simp
qed

lemma ids_drain_future [simp]: "file_ids (db (drain_future e p f s)) = file_ids (db s)"
  by (simp add: drain_future_def poll_stop_def Let_def handle_result_def handle_timeout_def
      handle_exception_def emit_def split: outcome.splits)

lemma pending_drain_future [simp]:
  "pending_rows_of (db (drain_future e p f s)) = pending_rows_of (db s)"
  by (simp add: drain_future_def poll_stop_def Let_def handle_result_def handle_timeout_def
      handle_exception_def emit_def split: outcome.splits)

lemma frame_drain_future [simp]:
  "files_remaining (drain_future e p f s) = files_remaining s"
  "iteration (drain_future e p f s) = iteration s"
  by (simp_all add: drain_future_def poll_stop_def Let_def handle_result_def handle_timeout_def
      handle_exception_def emit_def split: outcome.splits)

lemma tally_drain_future:
  assumes "stop_event p \<Longrightarrow> \<not> stop_is_set e (polls s)"
  shows "tally (drain_future e p f s) = tally_step (future_result e (fst f) (snd f)) (tally s)"
  using assms
  by (cases "future_result e (fst f) (snd f)")
     (auto simp: tally_def drain_future_def poll_stop_def Let_def handle_result_def
        handle_timeout_def handle_exception_def emit_def MAX_CONSECUTIVE_ERRORS_def)

lemma fold_drain_summary:
  assumes "\<And>k. stop_event p \<Longrightarrow> \<not> stop_is_set e k"
  shows "tally (fold (drain_future e p) fs s)
           = fold tally_step (map (\<lambda>f. future_result e (fst f) (snd f)) fs) (tally s)
       \<and> pending_rows_of (db (fold (drain_future e p) fs s)) = pending_rows_of (db s)
       \<and> file_ids (db (fold (drain_future e p) fs s)) = file_ids (db s)
       \<and> files_remaining (fold (drain_future e p) fs s) = files_remaining s
       \<and> iteration (fold (drain_future e p) fs s) = iteration s
       \<and> current_batch_size (fold (drain_future e p) fs s) = current_batch_size s"
proof (induction fs arbitrary: s)
  case Nil
  then show ?case by simp
next
  case (Cons f fs)
  have "tally (drain_future e p f s) = tally_step (future_result e (fst f) (snd f)) (tally s)"
    by (rule tally_drain_future) (rule assms)
  with Cons[of "drain_future e p f s"] show ?case by simp
qed

lemma frame_submit_batch:
  "processed_count (fst (submit_batch s futures xs)) = processed_count s
 \<and> error_count (fst (submit_batch s futures xs)) = error_count s
 \<and> iteration (fst (submit_batch s futures xs)) = iteration s
 \<and> files_remaining (fst (submit_batch s futures xs)) = files_remaining s
 \<and> current_batch_size (fst (submit_batch s futures xs)) = current_batch_size s"
  by (induction s futures xs rule: submit_batch.induct) (simp_all add: Let_def split: prod.splits)

lemma frame_poll_stop:
  "db (snd (poll_stop e p s)) = db s
 \<and> processed_count (snd (poll_stop e p s)) = processed_count s
 \<and> error_count (snd (poll_stop e p s)) = error_count s
 \<and> iteration (snd (poll_stop e p s)) = iteration s
 \<and> files_remaining (snd (poll_stop e p s)) = files_remaining s
 \<and> current_batch_size (snd (poll_stop e p s)) = current_batch_size s"
  by (simp add: poll_stop_def)

lemma run_batch_summary:
  assumes nostop: "\<And>k. stop_event p \<Longrightarrow> \<not> stop_is_set e k"
    and dist: "distinct (file_ids (db s))"
    and ys: "ys = take (nat (fetch_limit p s)) (pending_rows_of (db s))"
    and ne: "ys \<noteq> []"
    and t: "t = fold tally_step
                 (map (\<lambda>f. future_result e (fst f) (snd f))
                    (as_completed e (iteration s) (map row_key ys)))
                 (False, 0, processed_count s, error_count s)"
  shows "\<exists>s'. run_batch e p s = (if fst t then Break s' else Continue s')
          \<and> tally s' = t
          \<and> pending_rows_of (db s') = drop (nat (fetch_limit p s)) (pending_rows_of (db s))
          \<and> distinct (file_ids (db s'))
          \<and> files_remaining s' = (files_remaining s \<and> \<not> fst t)
          \<and> iteration s' = (if fst t then iteration s else Suc (iteration s))
          \<and> current_batch_size s' =
              (if \<not> fst t \<and> memory_percent_after e (iteration s) > 90
               then max MIN_BATCH_SIZE (current_batch_size s div 2)
               else current_batch_size s)"
proof -
  let ?zs = "drop (nat (fetch_limit p s)) (pending_rows_of (db s))"
  let ?xs = "get_pending_files (db s) (fetch_limit p s)"
  let ?s1 = "s\<lparr>trace := trace s @ [Fetched ?xs]\<rparr>"
  have xs: "?xs = map row_key ys" by (simp add: get_pending_files_rows ys)
  have "pending_rows_of (db ?s1) = ys @ ?zs" by (simp add: ys)
  moreover have "distinct (file_ids (db ?s1))" using dist by simp
  ultimately have sf:
    "snd (submit_batch ?s1 [] (map row_key ys)) = [] @ map row_key ys
   \<and> pending_rows_of (db (fst (submit_batch ?s1 [] (map row_key ys)))) = ?zs
   \<and> file_ids (db (fst (submit_batch ?s1 [] (map row_key ys)))) = file_ids (db ?s1)"
    by (intro submit_fifo)
  obtain s2 futures where sb: "submit_batch ?s1 [] ?xs = (s2, futures)"
    by (cases "submit_batch ?s1 [] ?xs")
  from sf sb xs have fut: "futures = map row_key ys" and p2: "pending_rows_of (db s2) = ?zs"
    and i2: "file_ids (db s2) = file_ids (db s)" by simp_all
  from frame_submit_batch[of ?s1 "[]" ?xs] sb have f2:
    "processed_count s2 = processed_count s" "error_count s2 = error_count s"
    "iteration s2 = iteration s" "files_remaining s2 = files_remaining s"
    "current_batch_size s2 = current_batch_size s" by simp_all
  let ?r = "s2\<lparr>stop_requested := False, consecutive_errors := 0\<rparr>"
  let ?s3 = "drain_batch e p futures s2"
  have s3: "?s3 = fold (drain_future e p) (as_completed e (iteration s) (map row_key ys)) ?r"
    by (simp add: drain_batch_def fut f2)
  note fd = fold_drain_summary[of p e "as_completed e (iteration s) (map row_key ys)" ?r, OF nostop]
  have t3: "tally ?s3 = t"
    unfolding s3 using fd by (simp add: t tally_def f2)
  have r3: "pending_rows_of (db ?s3) = ?zs" "distinct (file_ids (db ?s3))"
    "files_remaining ?s3 = files_remaining s" "iteration ?s3 = iteration s"
    "current_batch_size ?s3 = current_batch_size s"
    unfolding s3 using fd p2 i2 dist f2 by simp_all
  have sr: "stop_requested ?s3 = fst t" using t3 by (auto simp: tally_def)
  have nxs: "?xs \<noteq> []" using xs ne by simp
  show ?thesis
  proof (cases "fst t")
    case True
    let ?s' = "?s3\<lparr>files_remaining := False\<rparr>"
    have "run_batch e p s = Break ?s'"
      using nxs sb sr True by (simp add: run_batch_def Let_def)
    moreover have "tally ?s' = t" using t3 by (simp add: tally_def)
    ultimately show ?thesis using True r3
      by (intro exI[of _ ?s']) simp
  next
    case False
    let ?s' = "(memory_check e ?s3)\<lparr>iteration := Suc (iteration ?s3)\<rparr>"
    have "run_batch e p s = Continue ?s'"
      using nxs sb sr False by (simp add: run_batch_def Let_def)
    moreover have "tally ?s' = t" using t3 by (simp add: tally_def memory_check_def)
    ultimately show ?thesis using False r3
      by (intro exI[of _ ?s']) (simp add: memory_check_def)
  qed
qed

lemma run_batch_drained:
  assumes "pending_rows_of (db s) = []"
  shows "run_batch e p s
           = Break (s\<lparr>trace := trace s @ [Fetched []], files_remaining := False\<rparr>)"
  using assms by (simp add: run_batch_def get_pending_files_rows)

lemma loop_body_unstopped:
  assumes nostop: "\<And>k. stop_event p \<Longrightarrow> \<not> stop_is_set e k"
    and "\<not> (enable_dynamic_scaling p \<and> scaling_due e (iteration s))"
  shows "loop_body e p s = run_batch e p (snd (poll_stop e p s))"
proof -
  have "\<not> fst (poll_stop e p s)" using nostop by (simp add: poll_stop_def)
  moreover have "iteration (snd (poll_stop e p s)) = iteration s" by (simp add: poll_stop_def)
  ultimately show ?thesis using assms(2) by (auto simp: loop_body_def split_beta)
qed

lemma fresh_store_facts:
  "pending_rows_of (fresh_store n) = map pending_row [1..n]"
  "distinct (file_ids (fresh_store n))"
proof -
  show "pending_rows_of (fresh_store n) = map pending_row [1..n]"
    by (simp add: pending_rows_of_def fresh_store_def pending_row_def filter_id_conv)
  have "file_ids (fresh_store n) = [1..n]"
    by (simp add: file_ids_def fresh_store_def pending_row_def comp_def)
  then show "distinct (file_ids (fresh_store n))" by simp
qed

lemma loop_pass:
  assumes nostop: "\<And>k. stop_event p \<Longrightarrow> \<not> stop_is_set e k"
    and quiet: "\<And>n. \<not> scaling_due e n" "\<And>n. \<not> memory_percent_after e n > 90"
    and nomax: "max_files p = None"
    and fr: "files_remaining s"
    and dist: "distinct (file_ids (db s))"
    and ys: "ys = take (nat (current_batch_size s)) (pending_rows_of (db s))"
    and ne: "ys \<noteq> []"
    and t: "t = fold tally_step
                 (map (\<lambda>f. future_result e (fst f) (snd f))
                    (as_completed e (iteration s) (map row_key ys)))
                 (False, 0, processed_count s, error_count s)"
  shows "\<exists>s'. loop_guard p s
          \<and> loop_body e p s = (if fst t then Break s' else Continue s')
          \<and> tally s' = t
          \<and> pending_rows_of (db s') = drop (nat (current_batch_size s)) (pending_rows_of (db s))
          \<and> distinct (file_ids (db s'))
          \<and> files_remaining s' = (\<not> fst t)
          \<and> current_batch_size s' = current_batch_size s"
proof -
  let ?s1 = "snd (poll_stop e p s)"
  note f = frame_poll_stop[of e p s]
  have lim: "fetch_limit p ?s1 = current_batch_size s"
    using f nomax by (simp add: fetch_limit_def)
  have lb: "loop_body e p s = run_batch e p ?s1"
    by (rule loop_body_unstopped) (use nostop quiet in auto)
  have g: "loop_guard p s" using fr nomax by (simp add: loop_guard_def)
  have d1: "distinct (file_ids (db ?s1))" using f dist by simp
  have y1: "ys = take (nat (fetch_limit p ?s1)) (pending_rows_of (db ?s1))"
    using ys lim f by simp
  have t1: "t = fold tally_step
                 (map (\<lambda>f. future_result e (fst f) (snd f))
                    (as_completed e (iteration ?s1) (map row_key ys)))
                 (False, 0, processed_count ?s1, error_count ?s1)"
    using t f by simp
  from run_batch_summary[OF nostop d1 y1 ne t1]
  obtain s' where r: "run_batch e p ?s1 = (if fst t then Break s' else Continue s')"
    and rest0: "tally s' = t"
      "pending_rows_of (db s') = drop (nat (fetch_limit p ?s1)) (pending_rows_of (db ?s1))"
      "distinct (file_ids (db s'))" "files_remaining s' = (files_remaining ?s1 \<and> \<not> fst t)"
      "current_batch_size s' = (if \<not> fst t \<and> memory_percent_after e (iteration ?s1) > 90
               then max MIN_BATCH_SIZE (current_batch_size ?s1 div 2)
               else current_batch_size ?s1)"
    by blast
  have rest: "tally s' = t"
      "pending_rows_of (db s') = drop (nat (current_batch_size s)) (pending_rows_of (db s))"
      "distinct (file_ids (db s'))" "files_remaining s' = (\<not> fst t)"
      "current_batch_size s' = current_batch_size s"
    using rest0 lim f fr quiet by simp_all
  show ?thesis using g lb r rest by (intro exI[of _ s']) simp
qed

lemma loop_drained:
  assumes nostop: "\<And>k. stop_event p \<Longrightarrow> \<not> stop_is_set e k"
    and quiet: "\<And>n. \<not> scaling_due e n"
    and "pending_rows_of (db s) = []"
  shows "loop_body e p s
           = Break ((snd (poll_stop e p s))
                      \<lparr>trace := trace (snd (poll_stop e p s)) @ [Fetched []],
                       files_remaining := False\<rparr>)"
proof -
  have lb: "loop_body e p s = run_batch e p (snd (poll_stop e p s))"
    by (rule loop_body_unstopped) (use nostop quiet in auto)
  have "pending_rows_of (db (snd (poll_stop e p s))) = []"
    using assms(3) by (simp add: poll_stop_def)
  from run_batch_drained[OF this, of e p] lb show ?thesis by simp
qed

lemma take_upto: "take n [i..j] = [i..min j (i + int n - 1)]"
proof (induction n arbitrary: i)
  case 0
  then show ?case by simp
next
  case (Suc n)
  show ?case
  proof (cases "i \<le> j")
    case True
    then have "[i..j] = i # [i + 1..j]" by (rule upto_rec1)
    moreover have "[i..min j (i + int (Suc n) - 1)] = i # [i + 1..min j (i + int (Suc n) - 1)]"
      using True by (intro upto_rec1) simp
    ultimately show ?thesis using Suc[of "i + 1"] by (simp add: algebra_simps)
  next
    case False
    then show ?thesis by simp
  qed
qed

lemma drop_upto: "drop n [i..j] = [i + int n..j]"
proof (induction n arbitrary: i)
  case 0
  then show ?case by simp
next
  case (Suc n)
  show ?case
  proof (cases "i \<le> j")
    case True
    then have "[i..j] = i # [i + 1..j]" by (rule upto_rec1)
    then show ?thesis using Suc[of "i + 1"] by (simp add: algebra_simps)
  next
    case False
    then show ?thesis by simp
  qed
qed

lemma tally_burst_1:
  "fold tally_step
     (map (\<lambda>f. future_result (quiet_env burst_of_failures) (fst f) (snd f))
        (map row_key (map pending_row [1..50])))
     (False, 0, 0, 0) = (False, 40, 10, 40)"
  by code_simp

lemma tally_burst_2:
  "fold tally_step
     (map (\<lambda>f. future_result (quiet_env burst_of_failures) (fst f) (snd f))
        (map row_key (map pending_row [51..100])))
     (False, 0, 10, 40) = (False, 0, 50, 50)"
  by code_simp

lemma tally_all_fail:
  "fold tally_step
     (map (\<lambda>f. future_result (quiet_env always_fails) (fst f) (snd f))
        (map row_key (map pending_row [1..50])))
     (False, 0, 0, 0) = (True, 50, 0, 50)"
  by code_simp

lemma quiet_env_facts:
  "stop_is_set (quiet_env an) k = False"
  "scaling_due (quiet_env an) n = False"
  "memory_percent_after (quiet_env an) n = 50"
  "as_completed (quiet_env an) n fs = fs"
  by (simp_all add: quiet_env_def)

lemma initial_facts:
  "db (initial_sched e default_params st) = st"
  "files_remaining (initial_sched e default_params st)"
  "current_batch_size (initial_sched e default_params st) = 50"
  "processed_count (initial_sched e default_params st) = 0"
  "error_count (initial_sched e default_params st) = 0"
  "max_files default_params = None"
  by (simp_all add: initial_sched_def default_params_def)

lemma burst_passes:
  defines "e \<equiv> quiet_env burst_of_failures"
  defines "s0 \<equiv> initial_sched e default_params (fresh_store 100)"
  shows "map tally (loop_states e default_params s0)
           = [(False, 0, 0, 0), (False, 40, 10, 40), (False, 0, 50, 50), (False, 0, 50, 50)]
       \<and> \<not> files_remaining (main_loop e default_params s0)
       \<and> tally (main_loop e default_params s0) = (False, 0, 50, 50)
       \<and> pending_rows_of (db (main_loop e default_params s0)) = []"
proof -
  let ?p = default_params
  have nostop: "\<And>k. stop_event ?p \<Longrightarrow> \<not> stop_is_set e k"
    and quiet: "\<And>n. \<not> scaling_due e n" "\<And>n. \<not> memory_percent_after e n > 90"
    by (simp_all add: e_def quiet_env_facts)
  have i0: "tally s0 = (False, 0, 0, 0)"
    by (simp add: s0_def tally_def initial_sched_def)
  have y0: "map pending_row [1..50]
            = take (nat (current_batch_size s0)) (pending_rows_of (db s0))"
    by (simp add: s0_def initial_facts fresh_store_facts take_map take_upto)
  have t0: "(False, 40, 10, 40) = fold tally_step
                 (map (\<lambda>f. future_result e (fst f) (snd f))
                    (as_completed e (iteration s0) (map row_key (map pending_row [1..50]))))
                 (False, 0, processed_count s0, error_count s0)"
    unfolding e_def s0_def quiet_env_facts initial_facts tally_burst_1 ..
  have ne0: "map pending_row [1..50] \<noteq> []" by (simp add: upto_rec1[of 1 50])
  have fr0: "files_remaining s0" and d0: "distinct (file_ids (db s0))"
    by (simp_all add: s0_def initial_facts fresh_store_facts)
  from loop_pass[OF nostop quiet initial_facts(6) fr0 d0 y0 ne0 t0]
  obtain s1 where g0: "loop_guard ?p s0" and b0: "loop_body e ?p s0 = Continue s1"
    and f1: "tally s1 = (False, 40, 10, 40)"
      "pending_rows_of (db s1) = map pending_row [51..100]"
      "distinct (file_ids (db s1))" "files_remaining s1" "current_batch_size s1 = 50"
    by (auto simp: s0_def initial_facts fresh_store_facts drop_map drop_upto)
  have y1: "map pending_row [51..100]
            = take (nat (current_batch_size s1)) (pending_rows_of (db s1))"
    using f1 by (simp add: take_map take_upto)
  have c1: "processed_count s1 = 10" "error_count s1 = 40"
    using f1(1) by (simp_all add: tally_def)
  have t1: "(False, 0, 50, 50) = fold tally_step
                 (map (\<lambda>f. future_result e (fst f) (snd f))
                    (as_completed e (iteration s1) (map row_key (map pending_row [51..100]))))
                 (False, 0, processed_count s1, error_count s1)"
    unfolding e_def quiet_env_facts c1 tally_burst_2 ..
  have ne1: "map pending_row [51..100] \<noteq> []" by (simp add: upto_rec1[of 51 100])
  from loop_pass[OF nostop quiet initial_facts(6) f1(4) f1(3) y1 ne1 t1]
  obtain s2 where g1: "loop_guard ?p s1" and b1: "loop_body e ?p s1 = Continue s2"
    and f2: "tally s2 = (False, 0, 50, 50)"
      "pending_rows_of (db s2) = []" "files_remaining s2"
    using f1 by (auto simp: drop_map drop_upto)
  let ?s3 = "(snd (poll_stop e ?p s2))
               \<lparr>trace := trace (snd (poll_stop e ?p s2)) @ [Fetched []],
                files_remaining := False\<rparr>"
  have g2: "loop_guard ?p s2" using f2(3) by (simp add: loop_guard_def initial_facts)
  have b2: "loop_body e ?p s2 = Break ?s3"
    using nostop quiet(1) f2(2) by (rule loop_drained)
  have f3: "tally ?s3 = (False, 0, 50, 50)" "pending_rows_of (db ?s3) = []"
    using f2 by (simp_all add: poll_stop_def tally_def)
  have m: "main_loop e ?p s0 = ?s3"
    using g0 b0 g1 b1 g2 b2
    by (simp add: main_loop.simps[of e ?p s0] main_loop.simps[of e ?p s1]
        main_loop.simps[of e ?p s2])
  have l: "loop_states e ?p s0 = [s0, s1, s2, ?s3]"
    using g0 b0 g1 b1 g2 b2
    by (simp add: loop_states.simps[of e ?p s0] loop_states.simps[of e ?p s1]
        loop_states.simps[of e ?p s2])
  show ?thesis unfolding m l using i0 f1(1) f2(1) f3 by simp
qed

lemma all_fail_pass:
  defines "e \<equiv> quiet_env always_fails"
  defines "s0 \<equiv> initial_sched e default_params (fresh_store 50)"
  shows "\<not> files_remaining (main_loop e default_params s0)
       \<and> tally (main_loop e default_params s0) = (True, 50, 0, 50)
       \<and> pending_rows_of (db (main_loop e default_params s0)) = []"
proof -
  let ?p = default_params
  have nostop: "\<And>k. stop_event ?p \<Longrightarrow> \<not> stop_is_set e k"
    and quiet: "\<And>n. \<not> scaling_due e n" "\<And>n. \<not> memory_percent_after e n > 90"
    by (simp_all add: e_def quiet_env_facts)
  have y0: "map pending_row [1..50]
            = take (nat (current_batch_size s0)) (pending_rows_of (db s0))"
    by (simp add: s0_def initial_facts fresh_store_facts take_map take_upto)
  have t0: "(True, 50, 0, 50) = fold tally_step
                 (map (\<lambda>f. future_result e (fst f) (snd f))
                    (as_completed e (iteration s0) (map row_key (map pending_row [1..50]))))
                 (False, 0, processed_count s0, error_count s0)"
    unfolding e_def s0_def quiet_env_facts initial_facts tally_all_fail ..
  have ne0: "map pending_row [1..50] \<noteq> []" by (simp add: upto_rec1[of 1 50])
  have fr0: "files_remaining s0" and d0: "distinct (file_ids (db s0))"
    by (simp_all add: s0_def initial_facts fresh_store_facts)
  from loop_pass[OF nostop quiet initial_facts(6) fr0 d0 y0 ne0 t0]
  obtain s1 where g0: "loop_guard ?p s0" and b0: "loop_body e ?p s0 = Break s1"
    and f1: "tally s1 = (True, 50, 0, 50)" "\<not> files_remaining s1"
      "pending_rows_of (db s1) = []"
    by (auto simp: s0_def initial_facts fresh_store_facts drop_map drop_upto)
  have "main_loop e ?p s0 = s1"
    using g0 b0 by (simp add: main_loop.simps[of e ?p s0])
  then show ?thesis using f1 by simp
qed

lemma pending_count_rows: "pending_count st = length (pending_rows_of st)"
  by (simp add: pending_count_def pending_rows_of_def)

lemma run_facts:
  "status (fst (process_files_parallel e p st)) = final_status (main_loop e p (initial_sched e p st))"
  "job_status (db (snd (process_files_parallel e p st)))
     = final_status (main_loop e p (initial_sched e p st))"
  "processed (fst (process_files_parallel e p st)) = processed_count (main_loop e p (initial_sched e p st))"
  "errors (fst (process_files_parallel e p st)) = error_count (main_loop e p (initial_sched e p st))"
  "pending_rows_of (db (snd (process_files_parallel e p st)))
     = pending_rows_of (db (main_loop e p (initial_sched e p st)))"
  "stop_requested (snd (process_files_parallel e p st))
     = stop_requested (main_loop e p (initial_sched e p st))"
  "consecutive_errors (snd (process_files_parallel e p st))
     = consecutive_errors (main_loop e p (initial_sched e p st))"
  by (simp_all add: process_files_parallel_def Let_def update_job_status_def pending_rows_of_def)

lemma break_clears_files_remaining:
  "loop_body e p s = Break s' \<Longrightarrow> \<not> files_remaining s'"
  by (auto simp: loop_body_def run_batch_def Let_def split: prod.splits if_splits)

lemma main_loop_unbounded:
  "max_files p = None \<Longrightarrow> \<not> files_remaining (main_loop e p s)"
proof (induction e p s rule: main_loop.induct)
  case (1 e p s)
  show ?case
  proof (cases "loop_guard p s")
    case False
    with 1(2) show ?thesis by (simp add: main_loop.simps[of e p s] loop_guard_def)
  next
    case True
    show ?thesis
    proof (cases "loop_body e p s")
      case (Break s')
      with True break_clears_files_remaining[OF Break] show ?thesis
        by (simp add: main_loop.simps[of e p s])
    next
      case (Continue s')
      with True 1(1)[OF True Continue 1(2)] show ?thesis
        by (simp add: main_loop.simps[of e p s])
    qed
  qed
qed

text \<open>
  Claim C1, the run on which it fails. When \<^verbatim>\<open>max_files\<close> is not given, every
  way out of the loop clears \<^verbatim>\<open>files_remaining\<close>, so the run reports
  \<open>completed\<close> and writes \<open>completed\<close> to the job, whatever ended it. With 50
  files that all fail, the counter reaches \<open>MAX_CONSECUTIVE_ERRORS\<close> and the stop
  is requested, and the status returned and the status written are \<open>completed\<close>,
  not \<open>interrupted\<close>.
\<close>

theorem unbounded_run_reports_completed:
  assumes "max_files p = None"
  shows "status (fst (process_files_parallel e p st)) = ''completed'' \<and>
         job_status (db (snd (process_files_parallel e p st))) = ''completed''"
  using main_loop_unbounded[OF assms, of e "initial_sched e p st"]
  by (simp add: run_facts final_status_def)

theorem tripped_breaker_reports_completed:
  "max_files default_params = None \<and>
   stop_requested (snd all_fail_run) \<and>
   consecutive_errors (snd all_fail_run) = MAX_CONSECUTIVE_ERRORS \<and>
   errors (fst all_fail_run) = 50 \<and>
   status (fst all_fail_run) = ''completed'' \<and>
   job_status (db (snd all_fail_run)) = ''completed''"
proof -
  have m: "max_files default_params = None" by (simp add: default_params_def)
  from unbounded_run_reports_completed[OF m, of "quiet_env always_fails" "fresh_store 50"]
    all_fail_pass m
  show ?thesis
    by (simp add: all_fail_run_def run_facts tally_def MAX_CONSECUTIVE_ERRORS_def)
qed

lemma batch_counter_restarts:
  "drain_batch e p futures (s\<lparr>consecutive_errors := c, stop_requested := b\<rparr>)
     = drain_batch e p futures s"
  by (simp add: drain_batch_def)

text \<open>
  Claim C4, as the code has it. The consecutive-error counter belongs to a batch: the
  drain of a batch starts from zero whatever the batch before left. In the run over
  100 files in batches of 50, with the files 11 to 60 failing, the counter stands at 40
  after the first batch and at 0 after the second; the breaker does not trip, all 100
  files are drained (50 processed, 50 errors), none is left pending and the run ends
  \<open>completed\<close>.
\<close>

theorem error_counter_is_per_batch:
  "drain_batch e p futures (s\<lparr>consecutive_errors := c, stop_requested := b\<rparr>)
     = drain_batch e p futures s \<and>
   map consecutive_errors
     (loop_states (quiet_env burst_of_failures) default_params
        (initial_sched (quiet_env burst_of_failures) default_params (fresh_store 100)))
     = [0, 40, 0, 0] \<and>
   \<not> stop_requested (snd burst_run) \<and>
   processed (fst burst_run) = 50 \<and>
   errors (fst burst_run) = 50 \<and>
   pending_count (db (snd burst_run)) = 0 \<and>
   status (fst burst_run) = ''completed''"
proof -
  have "map consecutive_errors
     (loop_states (quiet_env burst_of_failures) default_params
        (initial_sched (quiet_env burst_of_failures) default_params (fresh_store 100)))
     = map (fst \<circ> snd) (map tally
     (loop_states (quiet_env burst_of_failures) default_params
        (initial_sched (quiet_env burst_of_failures) default_params (fresh_store 100))))"
    by (simp add: tally_def comp_def)
  then show ?thesis
    using burst_passes
    by (simp add: burst_run_def run_facts tally_def final_status_def batch_counter_restarts
        pending_count_rows)
qed

text \<open>
  Claim C4 as stated fails on that run: the job does not become \<open>interrupted\<close> and
  no file is left pending.
\<close>

theorem error_counter_is_per_batch_counterexample:
  "job_status (db (snd burst_run)) \<noteq> ''interrupted'' \<and> pending_count (db (snd burst_run)) = 0"
  using burst_passes
  by (simp add: burst_run_def run_facts tally_def final_status_def pending_count_rows)

section \<open>Slow workers\<close>

lemma library_never_times_out: "library_future_result pl fid path \<noteq> TimeoutError"
  by (simp add: library_future_result_def split: option.splits)

lemma pool_env_fields [simp]:
  "future_result (pool_env pl e) = library_future_result pl"
  "as_completed (pool_env pl e) n = library_as_completed pl"
  "stop_is_set (pool_env pl e) = stop_is_set e"
  by (simp_all add: pool_env_def)

lemma pool_drain_future:
  "drain_future (pool_env pl e) p f s =
     (case pool_failure pl (fst f) of
        None \<Rightarrow>
          handle_result p (process_single_file_process_safe (analyze_file pl) (fst f) (snd f))
            ((if fst (poll_stop e p s) then (snd (poll_stop e p s))\<lparr>stop_requested := True\<rparr>
              else snd (poll_stop e p s))
               \<lparr>trace := trace (snd (poll_stop e p s)) @ [Drained (fst f)]\<rparr>)
      | Some msg \<Rightarrow>
          handle_exception p msg
            ((if fst (poll_stop e p s) then (snd (poll_stop e p s))\<lparr>stop_requested := True\<rparr>
              else snd (poll_stop e p s))
               \<lparr>trace := trace (snd (poll_stop e p s)) @ [Drained (fst f)]\<rparr>))"
  by (simp add: drain_future_def poll_stop_def Let_def library_future_result_def
      split: option.splits)

text \<open>
  Claim C2, the run on which it fails. On no pool does the result of a drained future
  raise \<^verbatim>\<open>TimeoutError\<close>. A job of one file whose worker takes 200 seconds and then
  returns its result: the iterator does not raise, the file is drained, its row is
  \<open>completed\<close> with no error message, and the run counts one file processed and no
  error. When the worker takes 400 seconds the iterator yields nothing and raises, with
  the row still \<open>processing\<close>.
\<close>

theorem slow_worker_is_completed:
  "library_future_result pl fid path \<noteq> TimeoutError \<and>
   WORKER_TIMEOUT_SECONDS < int (finishes_after (steady_pool 200) 1) \<and>
   \<not> iterator_raises (steady_pool 200) [(1, numbered_path 1)] \<and>
   map fstatus (files (db (snd slow_run))) = [Completed] \<and>
   map error_message (files (db (snd slow_run))) = [None] \<and>
   drained (trace (snd slow_run)) = [1] \<and>
   processed (fst slow_run) = 1 \<and>
   errors (fst slow_run) = 0 \<and>
   iterator_raises (steady_pool 400) [(1, numbered_path 1)] \<and>
   library_as_completed (steady_pool 400) [(1, numbered_path 1)] = [] \<and>
   map fstatus (files (db one_submitted)) = [Processing]"
proof -
  have "library_future_result pl fid path \<noteq> TimeoutError"
    by (rule library_never_times_out)
  moreover have "WORKER_TIMEOUT_SECONDS < int (finishes_after (steady_pool 200) 1)"
    by (simp add: steady_pool_def WORKER_TIMEOUT_SECONDS_def)
  moreover have "\<not> iterator_raises (steady_pool 200) [(1, numbered_path 1)]"
    by (simp add: iterator_raises_def steady_pool_def WORKER_TIMEOUT_SECONDS_def)
  moreover have "map fstatus (files (db (snd slow_run))) = [Completed]" by code_simp
  moreover have "map error_message (files (db (snd slow_run))) = [None]" by code_simp
  moreover have "drained (trace (snd slow_run)) = [1]" by code_simp
  moreover have "processed (fst slow_run) = 1" by code_simp
  moreover have "errors (fst slow_run) = 0" by code_simp
  moreover have "iterator_raises (steady_pool 400) [(1, numbered_path 1)]"
    by (simp add: iterator_raises_def steady_pool_def WORKER_TIMEOUT_SECONDS_def)
  moreover have "library_as_completed (steady_pool 400) [(1, numbered_path 1)] = []"
    by (simp add: library_as_completed_def steady_pool_def WORKER_TIMEOUT_SECONDS_def)
  moreover have "map fstatus (files (db one_submitted)) = [Processing]" by code_simp
  ultimately show ?thesis by blast
qed

section \<open>Progress events\<close>





lemma sink_adapt [simp]: "sink (adapt e s) = sink s"
  by (simp add: adapt_def Let_def adjust_batch_size_def adjust_worker_count_def
      critical_batch_clamp_def)

lemma sink_memory_check [simp]: "sink (memory_check e s) = sink s"
  by (simp add: memory_check_def)













section \<open>The operations of the service\<close>

lemma start_refused:
  "is_running svc \<or> \<not> isdir fs (data_path svc) \<Longrightarrow>
   \<not> resp_success (fst (start_analysis now fs svc)) \<and> snd (start_analysis now fs svc) = svc"
  by (auto simp: start_analysis_def)

text \<open>
  Claim C5, the states on which it fails. \<^verbatim>\<open>start_analysis\<close> refuses only while
  the service is scanning or processing. In the state \<open>stopping\<close>, where
  \<open>can_start\<close> is false, it succeeds, clears the stop event of the run that is
  still draining and starts a second thread; it succeeds in the states \<open>completed\<close>
  and \<open>error\<close> as well.
\<close>

theorem start_while_stopping:
  "resp_success (fst (start_analysis 20 sample_fs (sample_service STOPPING))) \<and>
   \<not> can_start (sample_service STOPPING) \<and>
   \<not> stop_requested_event (snd (start_analysis 20 sample_fs (sample_service STOPPING))) \<and>
   threads_started (snd (start_analysis 20 sample_fs (sample_service STOPPING))) = 2 \<and>
   resp_success (fst (start_analysis 20 sample_fs (sample_service COMPLETED))) \<and>
   resp_success (fst (start_analysis 20 sample_fs (sample_service ERROR)))"
  by (simp add: start_analysis_def is_running_def isdir_def sample_fs_def sample_service_def can_start_def)

text \<open>
  Claim C9 as worded fails: on a service in the state \<open>error\<close> whose database file
  the operating system refuses to unlink, \<^verbatim>\<open>clear_results\<close> answers with success
  false and the text of the exception; the state stays \<open>error\<close>, job id, progress
  and start time stay as they were, and the file stays.
\<close>

theorem clear_when_not_running_counterexample:
  "\<not> is_running (sample_service ERROR) \<and>
   \<not> resp_success (fst (clear_results read_only_fs (sample_service ERROR))) \<and>
   resp_error (fst (clear_results read_only_fs (sample_service ERROR)))
     = Some ''[Errno 13] Permission denied: /app/db/pii_results.db'' \<and>
   resp_state (fst (clear_results read_only_fs (sample_service ERROR))) = ''error'' \<and>
   fst (snd (clear_results read_only_fs (sample_service ERROR))) = sample_service ERROR \<and>
   snd (snd (clear_results read_only_fs (sample_service ERROR))) = read_only_fs \<and>
   node_at read_only_fs ''/app/db/pii_results.db'' = Some RegularFile"
  by (simp add: clear_results_def is_running_def path_exists_def os_remove_def
      read_only_fs_def sample_fs_def sample_service_def)

text \<open>
  Claim C9, amended. In each of the states \<open>idle\<close>, \<open>stopping\<close>, \<open>completed\<close> and
  \<open>error\<close>: when the database path names nothing, or a regular file that
  \<^verbatim>\<open>os.remove\<close> removes, \<^verbatim>\<open>clear_results\<close> succeeds: the database file is gone,
  the state is \<open>idle\<close>, and job id, progress, error message, start and end time are
  cleared. When \<^verbatim>\<open>os.remove\<close> raises (the path names a directory, or a file the
  operating system refuses to unlink), \<^verbatim>\<open>clear_results\<close> answers with success false,
  the text of the exception and the state it found, and changes neither the service nor
  the file system.
\<close>

theorem clear_when_not_running:
  assumes "state svc \<in> {IDLE, STOPPING, COMPLETED, ERROR}"
  shows "(node_at fs (db_path svc) = None \<or>
          node_at fs (db_path svc) = Some RegularFile \<and> \<not> unlink_refused fs (db_path svc) \<longrightarrow>
            clear_results fs svc =
              (\<lparr>resp_success = True, resp_error = None,
                resp_message = Some ''Results cleared successfully'', resp_state = ''idle''\<rparr>,
               svc\<lparr>state := IDLE, current_job_id := None, progress := [],
                   service_error_message := None, start_time := None, end_time := None\<rparr>,
               fs\<lparr>node_at := (node_at fs)(db_path svc := None)\<rparr>))
       \<and> (node_at fs (db_path svc) = Some Directory \<or>
          node_at fs (db_path svc) = Some RegularFile \<and> unlink_refused fs (db_path svc) \<longrightarrow>
            clear_results fs svc =
              (\<lparr>resp_success = False, resp_error = Some (remove_error fs (db_path svc)),
                resp_message = None, resp_state = state_value (state svc)\<rparr>, svc, fs))"
proof -
  have nr: "\<not> is_running svc" using assms(1) by (auto simp: is_running_def)
  have absent: "node_at fs (db_path svc) = None \<Longrightarrow>
      fs\<lparr>node_at := (node_at fs)(db_path svc := None)\<rparr> = fs"
  proof -
    assume "node_at fs (db_path svc) = None"
    then have "(node_at fs)(db_path svc := None) = node_at fs" by auto
    then show ?thesis by simp
  qed
  show ?thesis
  proof (cases "node_at fs (db_path svc)")
    case None
    with nr absent show ?thesis
      by (simp add: clear_results_def path_exists_def reset_service_def)
  next
    case (Some n)
    with nr show ?thesis
      by (cases n) (simp_all add: clear_results_def path_exists_def os_remove_def reset_service_def)
  qed
qed

theorem clear_when_not_running_witness:
  "state (fst (snd (clear_results sample_fs (sample_service ERROR)))) = IDLE \<and>
   resp_success (fst (clear_results sample_fs (sample_service ERROR))) \<and>
   node_at (snd (snd (clear_results sample_fs (sample_service ERROR)))) ''/app/db/pii_results.db'' = None \<and>
   state (fst (snd (clear_results fresh_fs (sample_service STOPPING)))) = IDLE \<and>
   snd (snd (clear_results fresh_fs (sample_service STOPPING))) = fresh_fs \<and>
   \<not> resp_success (fst (clear_results read_only_fs (sample_service COMPLETED))) \<and>
   state (fst (snd (clear_results read_only_fs (sample_service COMPLETED)))) = COMPLETED"
proof -
  have a: "state (sample_service ERROR) \<in> {IDLE, STOPPING, COMPLETED, ERROR}"
    "state (sample_service STOPPING) \<in> {IDLE, STOPPING, COMPLETED, ERROR}"
    "state (sample_service COMPLETED) \<in> {IDLE, STOPPING, COMPLETED, ERROR}"
    by (simp_all add: sample_service_def)
  have removable: "node_at sample_fs (db_path (sample_service ERROR)) = Some RegularFile"
    "\<not> unlink_refused sample_fs (db_path (sample_service ERROR))"
    by (simp_all add: sample_fs_def sample_service_def)
  have absent: "node_at fresh_fs (db_path (sample_service STOPPING)) = None"
    by (simp add: fresh_fs_def sample_fs_def sample_service_def)
  have same: "fresh_fs\<lparr>node_at := (node_at fresh_fs)(db_path (sample_service STOPPING) := None)\<rparr>
      = fresh_fs"
    by (simp add: fresh_fs_def sample_fs_def sample_service_def)
  have refused: "node_at read_only_fs (db_path (sample_service COMPLETED)) = Some RegularFile"
    "unlink_refused read_only_fs (db_path (sample_service COMPLETED))"
    by (simp_all add: read_only_fs_def sample_fs_def sample_service_def)
  show ?thesis
    using clear_when_not_running[where svc = "sample_service ERROR" and fs = sample_fs, OF a(1)]
      clear_when_not_running[where svc = "sample_service STOPPING" and fs = fresh_fs, OF a(2)]
      clear_when_not_running[where svc = "sample_service COMPLETED" and fs = read_only_fs, OF a(3)]
      removable absent same refused
    by (simp add: sample_service_def)
qed


end
